theory Spec2Isabelle
  imports Main "HOL-Library.Multiset"
begin

section \<open>Python values used by the program\<close>

text \<open>
  Python integers are unbounded and are modelled by \<open>int\<close>; Python's floor division and
  modulo agree with \<open>div\<close> and \<open>mod\<close> on \<open>int\<close>.  A Python string is a \<open>string\<close>, one
  \<open>char\<close> per symbol.  Every exception the code can raise is a value of \<open>error\<close>, and a
  function that can raise returns \<open>error + 'a\<close> with \<open>Inl\<close> for the exception.
\<close>

datatype error =
    BadBoard string
  | IndexError
  | ValueError
  | ZeroDivisionError
  | TypeError
  | AttributeError

definition bind_err :: "error + 'a \<Rightarrow> ('a \<Rightarrow> error + 'b) \<Rightarrow> error + 'b" where
  "bind_err r k = (case r of Inl e \<Rightarrow> Inl e | Inr v \<Rightarrow> k v)"

text \<open>\<open>xs[i]\<close>: a negative index counts from the end, an index out of range raises.\<close>

definition py_get :: "'a list \<Rightarrow> int \<Rightarrow> error + 'a" where
  "py_get xs i =
     (let len = int (length xs); j = (if i < 0 then i + len else i)
      in if 0 \<le> j \<and> j < len then Inr (xs ! nat j) else Inl IndexError)"

text \<open>A slice bound: a negative bound counts from the end, and the result is clamped to
  \<open>0 .. len\<close>.\<close>

definition py_bound :: "'a list \<Rightarrow> int \<Rightarrow> nat" where
  "py_bound xs i =
     (let len = int (length xs)
      in nat (if i < 0 then max 0 (i + len) else min i len))"

text \<open>\<open>xs[i:j]\<close>, \<open>xs[:j]\<close> and \<open>xs[i:]\<close>; a slice never raises.\<close>

definition py_slice :: "'a list \<Rightarrow> int \<Rightarrow> int \<Rightarrow> 'a list" where
  "py_slice xs i j = take (py_bound xs j - py_bound xs i) (drop (py_bound xs i) xs)"

definition py_slice_to :: "'a list \<Rightarrow> int \<Rightarrow> 'a list" where
  "py_slice_to xs j = take (py_bound xs j) xs"

definition py_slice_from :: "'a list \<Rightarrow> int \<Rightarrow> 'a list" where
  "py_slice_from xs i = drop (py_bound xs i) xs"

text \<open>\<open>xs.index(c)\<close>: the first position of \<open>c\<close>, \<open>ValueError\<close> when \<open>c\<close> does not occur.\<close>

fun str_index :: "'a list \<Rightarrow> 'a \<Rightarrow> error + nat" where
  "str_index [] c = Inl ValueError"
| "str_index (x # xs) c =
     (if x = c then Inr 0
      else case str_index xs c of Inl e \<Rightarrow> Inl e | Inr i \<Rightarrow> Inr (Suc i))"

section \<open>Board.py\<close>

text \<open>
  An object of class \<open>SlideBoard\<close> with its six fields, in the order in which
  \<open>__init__\<close> assigns them.  The field \<open>_n\<close> is named \<open>board_n\<close>.  \<open>parent\<close> is the
  reference to the parent board (\<open>None\<close> for a root).  The only write to a board after
  its construction is that of \<open>generate_heuristic\<close>.  The search driver passes every
  object to \<open>Fringe.add\<close> once, before the object is stored anywhere and before it has
  children, so for the driver a reference to a board is modelled by the board's value.  A
  client that adds an object again is modelled over a store of objects, in the section on
  the priority queue over a store below.
\<close>

datatype SlideBoard =
  SlideBoard (tiles: string) (board_n: int) (space_ind: int)
    (heuristic: "int option") (depth: int) (parent: "SlideBoard option")

definition blank :: char where
  "blank = CHR '' ''"

text \<open>\<open>SlideBoard(tiles, n, space_ind, depth, parent)\<close>: the heuristic starts absent.\<close>

definition init :: "string \<Rightarrow> int \<Rightarrow> int \<Rightarrow> int \<Rightarrow> SlideBoard option \<Rightarrow> SlideBoard" where
  "init ts n sp d p = SlideBoard ts n sp None d p"

text \<open>\<open>SlideBoard.create\<close>: the four checks in the order of the source, each with its
  message. \<open>len(set(str_rep))\<close> is the number of distinct symbols.\<close>

definition create :: "string \<Rightarrow> int \<Rightarrow> error + SlideBoard" where
  "create str_rep n =
     (if n \<le> 0 then Inl (BadBoard ''Board size must be positive.'')
      else if int (length str_rep) \<noteq> n * n
        then Inl (BadBoard ''An n x n board must specify n^2 spaces.'')
      else if blank \<notin> set str_rep
        then Inl (BadBoard ''A board must include a blank space (space key).'')
      else if length (remdups str_rep) \<noteq> length str_rep
        then Inl (BadBoard ''A board must have no duplicate tiles.'')
      else bind_err (str_index str_rep blank) (\<lambda>i. Inr (init str_rep n (int i) 0 None)))"

text \<open>\<open>__eq__\<close>: both operands are boards wherever the program compares, so the type test
  is true and the tiles decide.\<close>

definition board_eq :: "SlideBoard \<Rightarrow> SlideBoard \<Rightarrow> bool" where
  "board_eq self other = (tiles self = tiles other)"

text \<open>\<open>__hash__\<close>: Python's built-in hash of the tiles string. The built-in is not part of
  the program and is a parameter \<open>H\<close> here.\<close>

definition board_hash :: "(string \<Rightarrow> int) \<Rightarrow> SlideBoard \<Rightarrow> int" where
  "board_hash H self = H (tiles self)"

text \<open>\<open>_manhattan_distance\<close>: the loop over \<open>enumerate(first.tiles)\<close>, with the index
  \<open>ind\<close> of the next tile and the running total.  \<open>divmod\<close> by a zero \<open>n\<close> raises before
  the goal is searched for the tile.\<close>

fun manhattan_loop :: "int \<Rightarrow> string \<Rightarrow> int \<Rightarrow> string \<Rightarrow> int \<Rightarrow> error + int" where
  "manhattan_loop n second_tiles ind [] total_manhattan = Inr total_manhattan"
| "manhattan_loop n second_tiles ind (tile # rest) total_manhattan =
     (if tile = blank then manhattan_loop n second_tiles (ind + 1) rest total_manhattan
      else if n = 0 then Inl ZeroDivisionError
      else
        case str_index second_tiles tile of
          Inl e \<Rightarrow> Inl e
        | Inr j \<Rightarrow>
            (let y1 = ind div n; x1 = ind mod n;
                 y2 = int j div n; x2 = int j mod n
             in manhattan_loop n second_tiles (ind + 1) rest
                  (total_manhattan + (\<bar>y2 - y1\<bar> + \<bar>x2 - x1\<bar>))))"

definition manhattan_distance :: "SlideBoard \<Rightarrow> SlideBoard \<Rightarrow> error + int" where
  "manhattan_distance first second =
     manhattan_loop (board_n first) (tiles second) 0 (tiles first) 0"

text \<open>\<open>generate_heuristic\<close> writes the field; the model returns the updated board.\<close>

definition set_heuristic :: "SlideBoard \<Rightarrow> int option \<Rightarrow> SlideBoard" where
  "set_heuristic s h = SlideBoard (tiles s) (board_n s) (space_ind s) h (depth s) (parent s)"

definition generate_heuristic :: "SlideBoard \<Rightarrow> SlideBoard \<Rightarrow> error + SlideBoard" where
  "generate_heuristic self goal =
     bind_err (manhattan_distance self goal) (\<lambda>h. Inr (set_heuristic self (Some h)))"

text \<open>\<open>_space_move\<close>: \<open>None\<close> for an illegal move, otherwise the board with the symbols at
  \<open>min_pos\<close> and \<open>max_pos\<close> exchanged, built from the five pieces of the source.\<close>

definition space_move :: "SlideBoard \<Rightarrow> bool \<Rightarrow> int \<Rightarrow> error + SlideBoard option" where
  "space_move self check new_pos =
     (if \<not> check then Inr None
      else
        let min_pos = min (space_ind self) new_pos;
            max_pos = max (space_ind self) new_pos
        in bind_err (py_get (tiles self) max_pos) (\<lambda>at_max.
           bind_err (py_get (tiles self) min_pos) (\<lambda>at_min.
             Inr (Some (init
               (py_slice_to (tiles self) min_pos @ [at_max]
                  @ py_slice (tiles self) (min_pos + 1) max_pos @ [at_min]
                  @ py_slice_from (tiles self) (max_pos + 1))
               (board_n self) new_pos (depth self + 1) (Some self))))))"

definition space_up :: "SlideBoard \<Rightarrow> error + SlideBoard option" where
  "space_up self =
     space_move self (space_ind self \<ge> board_n self) (space_ind self - board_n self)"

definition space_down :: "SlideBoard \<Rightarrow> error + SlideBoard option" where
  "space_down self =
     space_move self (space_ind self < board_n self ^ 2 - board_n self)
       (space_ind self + board_n self)"

text \<open>\<open>%\<close> by a zero \<open>n\<close> raises while the arguments are evaluated.\<close>

definition space_left :: "SlideBoard \<Rightarrow> error + SlideBoard option" where
  "space_left self =
     (if board_n self = 0 then Inl ZeroDivisionError
      else space_move self (space_ind self mod board_n self \<noteq> 0) (space_ind self - 1))"

definition space_right :: "SlideBoard \<Rightarrow> error + SlideBoard option" where
  "space_right self =
     (if board_n self = 0 then Inl ZeroDivisionError
      else space_move self (space_ind self mod board_n self \<noteq> board_n self - 1)
             (space_ind self + 1))"

section \<open>Solver.py\<close>

subsection \<open>The library function \<open>bisect.insort_left\<close>\<close>

text \<open>
  \<open>insort_left(a, x, key=key)\<close> of Python's \<open>bisect\<close> module: it computes \<open>key(x)\<close>,
  runs the binary search \<open>bisect_left(a, key(x), 0, len(a), key=key)\<close> and inserts \<open>x\<close> at
  the position found.  The search loop is the library's:
  \<^verbatim>\<open>while lo < hi: mid = (lo + hi) // 2; if key(a[mid]) < x: lo = mid + 1; else: hi = mid\<close>.
  The key function may raise.
\<close>

function bisect_left ::
  "'a list \<Rightarrow> int \<Rightarrow> nat \<Rightarrow> nat \<Rightarrow> ('a \<Rightarrow> error + int) \<Rightarrow> error + nat" where
  "bisect_left a x lo hi key =
     (if lo < hi then
        (let mid = (lo + hi) div 2
         in bind_err (py_get a (int mid)) (\<lambda>at_mid.
            bind_err (key at_mid) (\<lambda>k.
              if k < x then bisect_left a x (mid + 1) hi key
              else bisect_left a x lo mid key)))
      else Inr lo)"
  by pat_completeness auto
termination
  by (relation "measure (\<lambda>(a, x, lo, hi, key). hi - lo)") auto

definition list_insert :: "'a list \<Rightarrow> nat \<Rightarrow> 'a \<Rightarrow> 'a list" where
  "list_insert a i x = take i a @ x # drop i a"

definition insort_left :: "'a list \<Rightarrow> 'a \<Rightarrow> ('a \<Rightarrow> error + int) \<Rightarrow> error + 'a list" where
  "insort_left a x key =
     bind_err (key x) (\<lambda>kx.
     bind_err (bisect_left a kx 0 (length a) key) (\<lambda>lo.
       Inr (list_insert a lo x)))"

subsection \<open>Fringe data structures\<close>

text \<open>
  The three subclasses of \<open>Fringe\<close> with their own fields: the deque of \<open>Queue\<close> (left end
  first), the list of \<open>Stack\<close>, and the sorted list of \<open>PriorityQueue\<close> together with its
  stored function \<open>_f\<close>, the negated scoring function.  The fields of the base class are
  the record \<open>Fringe\<close>.
\<close>

datatype contents =
    Queue "SlideBoard list"
  | Stack "SlideBoard list"
  | PriorityQueue "SlideBoard list" "SlideBoard \<Rightarrow> error + int"

record Fringe =
  uses_heuristic :: bool
  num_created :: int
  max_fringe :: int
  contents :: contents

definition Fringe_init :: "bool \<Rightarrow> contents \<Rightarrow> Fringe" where
  "Fringe_init uses c =
     \<lparr>uses_heuristic = uses, num_created = - 1, max_fringe = 0, contents = c\<rparr>"

definition Queue_init :: Fringe where
  "Queue_init = Fringe_init False (Queue [])"

definition Stack_init :: Fringe where
  "Stack_init = Fringe_init False (Stack [])"

text \<open>\<open>self._f = lambda state: -f(state)\<close>; a scoring function that raises, or returns
  \<open>None\<close> so that the negation raises, is \<open>Inl\<close>.\<close>

definition negated :: "('a \<Rightarrow> error + int) \<Rightarrow> 'a \<Rightarrow> error + int" where
  "negated f state = bind_err (f state) (\<lambda>v. Inr (- v))"

definition PriorityQueue_init :: "(SlideBoard \<Rightarrow> error + int) \<Rightarrow> Fringe" where
  "PriorityQueue_init f = Fringe_init True (PriorityQueue [] (negated f))"

text \<open>\<open>__len__\<close>\<close>

definition len :: "Fringe \<Rightarrow> nat" where
  "len self =
     (case contents self of
        Queue d \<Rightarrow> length d
      | Stack s \<Rightarrow> length s
      | PriorityQueue l key \<Rightarrow> length l)"

text \<open>\<open>_add\<close> and \<open>_remove\<close> of the three subclasses. \<open>popleft\<close> and \<open>pop\<close> raise
  \<open>IndexError\<close> on an empty container.\<close>

definition add_sub :: "contents \<Rightarrow> SlideBoard \<Rightarrow> error + contents" where
  "add_sub c state =
     (case c of
        Queue d \<Rightarrow> Inr (Queue (d @ [state]))
      | Stack s \<Rightarrow> Inr (Stack (s @ [state]))
      | PriorityQueue l key \<Rightarrow>
          bind_err (insort_left l state key) (\<lambda>l'. Inr (PriorityQueue l' key)))"

definition remove_sub :: "contents \<Rightarrow> error + (SlideBoard \<times> contents)" where
  "remove_sub c =
     (case c of
        Queue d \<Rightarrow> (case d of [] \<Rightarrow> Inl IndexError | x # r \<Rightarrow> Inr (x, Queue r))
      | Stack s \<Rightarrow> (if s = [] then Inl IndexError else Inr (last s, Stack (butlast s)))
      | PriorityQueue l key \<Rightarrow>
          (if l = [] then Inl IndexError else Inr (last l, PriorityQueue (butlast l) key)))"

text \<open>\<open>Fringe.add\<close>, for a state object that is added once: the state stored is the
  state with its heuristic generated.\<close>

definition add :: "Fringe \<Rightarrow> SlideBoard \<Rightarrow> SlideBoard \<Rightarrow> error + Fringe" where
  "add self state goal =
     bind_err (if uses_heuristic self then generate_heuristic state goal else Inr state)
       (\<lambda>state'.
     bind_err (add_sub (contents self) state') (\<lambda>c.
       let self1 = self\<lparr>contents := c, num_created := num_created self + 1\<rparr>
       in Inr (if int (len self1) > max_fringe self1
               then self1\<lparr>max_fringe := int (len self1)\<rparr> else self1)))"

text \<open>\<open>Fringe.remove\<close>: \<open>None\<close> signals emptiness.\<close>

definition remove :: "Fringe \<Rightarrow> error + (SlideBoard option \<times> Fringe)" where
  "remove self =
     (if len self \<noteq> 0
      then bind_err (remove_sub (contents self))
             (\<lambda>(state, c). Inr (Some state, self\<lparr>contents := c\<rparr>))
      else Inr (None, self))"

subsection \<open>Search algorithms\<close>

text \<open>
  The expanded set is a Python set of boards, keyed by \<open>__hash__\<close> and \<open>__eq__\<close>, that
  is, by the tiles.  It is modelled by the list of its elements in the order of insertion.
\<close>

definition member_expanded :: "SlideBoard \<Rightarrow> SlideBoard list \<Rightarrow> bool" where
  "member_expanded node expanded = list_ex (\<lambda>e. board_eq e node) expanded"

definition expanded_add :: "SlideBoard list \<Rightarrow> SlideBoard \<Rightarrow> SlideBoard list" where
  "expanded_add expanded node =
     (if member_expanded node expanded then expanded else expanded @ [node])"

definition try_add ::
  "Fringe \<Rightarrow> SlideBoard list \<Rightarrow> SlideBoard \<Rightarrow> SlideBoard option \<Rightarrow> error + Fringe" where
  "try_add fringe expanded goal node =
     (case node of
        None \<Rightarrow> Inr fringe
      | Some nd \<Rightarrow>
          if \<not> member_expanded nd expanded then add fringe nd goal else Inr fringe)"

text \<open>Step 2 of the loop body: the four successors in the order up, down, left, right.\<close>

definition expand ::
  "Fringe \<Rightarrow> SlideBoard list \<Rightarrow> SlideBoard \<Rightarrow> SlideBoard \<Rightarrow> error + Fringe" where
  "expand fringe expanded goal node =
     bind_err (space_up node) (\<lambda>up.
     bind_err (try_add fringe expanded goal up) (\<lambda>fringe1.
     bind_err (space_down node) (\<lambda>down.
     bind_err (try_add fringe1 expanded goal down) (\<lambda>fringe2.
     bind_err (space_left node) (\<lambda>left.
     bind_err (try_add fringe2 expanded goal left) (\<lambda>fringe3.
     bind_err (space_right node) (\<lambda>right.
     try_add fringe3 expanded goal right)))))))"

text \<open>The tuple returned: the node, its depth, \<open>num_created\<close>, the size of the expanded
  set and \<open>max_fringe\<close>.\<close>

type_synonym search_result = "SlideBoard option \<times> int \<times> int \<times> int \<times> int"

text \<open>
  One pass through the body of the \<open>while\<close> loop on a non-empty fringe: an exception, the
  returned tuple, or the fringe and expanded set of the next pass.  \<open>remove\<close> returns
  \<open>None\<close> only for an empty fringe; with \<open>None\<close> the body would reach
  \<open>node.space_up()\<close> and raise.
\<close>

datatype step = Raise error | Return search_result | Continue Fringe "SlideBoard list"

definition loop_body :: "SlideBoard \<Rightarrow> Fringe \<Rightarrow> SlideBoard list \<Rightarrow> step" where
  "loop_body goal_state fringe expanded =
     (case remove fringe of
        Inl e \<Rightarrow> Raise e
      | Inr (None, fringe1) \<Rightarrow> Raise AttributeError
      | Inr (Some node, fringe1) \<Rightarrow>
          if member_expanded node expanded then Continue fringe1 expanded
          else if board_eq node goal_state then
            Return (Some node, depth node, num_created fringe1,
                    int (length expanded), max_fringe fringe1)
          else
            (let expanded1 = expanded_add expanded node
             in case expand fringe1 expanded1 goal_state node of
                  Inl e \<Rightarrow> Raise e
                | Inr fringe2 \<Rightarrow> Continue fringe2 expanded1))"

text \<open>The \<open>while\<close> loop. It may run forever, which is the value \<open>None\<close>.\<close>

partial_function (option) graph_loop ::
  "SlideBoard \<Rightarrow> Fringe \<Rightarrow> SlideBoard list \<Rightarrow> (error + search_result) option" where
  [code]: "graph_loop goal_state fringe expanded =
     (if len fringe = 0 then Some (Inr (None, - 1, 0, 0, 0))
      else
        case loop_body goal_state fringe expanded of
          Raise e \<Rightarrow> Some (Inl e)
        | Return r \<Rightarrow> Some (Inr r)
        | Continue fringe1 expanded1 \<Rightarrow> graph_loop goal_state fringe1 expanded1)"

definition graph_search ::
  "SlideBoard \<Rightarrow> SlideBoard \<Rightarrow> Fringe \<Rightarrow> (error + search_result) option" where
  "graph_search start_state goal_state fringe =
     (case add fringe start_state goal_state of
        Inl e \<Rightarrow> Some (Inl e)
      | Inr fringe1 \<Rightarrow> graph_loop goal_state fringe1 [])"

text \<open>The scoring functions of GBFS and A*: an absent heuristic makes the arithmetic
  raise \<open>TypeError\<close>.\<close>

definition f_GBFS :: "SlideBoard \<Rightarrow> error + int" where
  "f_GBFS state = (case heuristic state of None \<Rightarrow> Inl TypeError | Some h \<Rightarrow> Inr h)"

definition f_AStar :: "SlideBoard \<Rightarrow> error + int" where
  "f_AStar state =
     (case heuristic state of None \<Rightarrow> Inl TypeError | Some h \<Rightarrow> Inr (depth state + h))"

definition BFS :: "SlideBoard \<Rightarrow> SlideBoard \<Rightarrow> (error + search_result) option" where
  "BFS start_state goal_state = graph_search start_state goal_state Queue_init"

definition DFS :: "SlideBoard \<Rightarrow> SlideBoard \<Rightarrow> (error + search_result) option" where
  "DFS start_state goal_state = graph_search start_state goal_state Stack_init"

definition GBFS :: "SlideBoard \<Rightarrow> SlideBoard \<Rightarrow> (error + search_result) option" where
  "GBFS start_state goal_state =
     graph_search start_state goal_state (PriorityQueue_init f_GBFS)"

definition AStar :: "SlideBoard \<Rightarrow> SlideBoard \<Rightarrow> (error + search_result) option" where
  "AStar start_state goal_state =
     graph_search start_state goal_state (PriorityQueue_init f_AStar)"

section \<open>Tester.py: the solution path\<close>

text \<open>\<open>_print_solution\<close> walks the parent references from the node returned and prints
  the tiles in reverse, root first.\<close>

fun solution_path :: "SlideBoard \<Rightarrow> string list" where
  "solution_path (SlideBoard ts n sp h d None) = [ts]"
| "solution_path (SlideBoard ts n sp h d (Some p)) = solution_path p @ [ts]"

section \<open>Solver.py: the priority queue over a store of objects\<close>

text \<open>
  \<open>Fringe.add\<close> calls \<open>state.generate_heuristic(goal)\<close>, which writes the field
  \<open>_heuristic\<close> of the object it is given, and the sorted list of a \<open>PriorityQueue\<close> holds
  references to objects.  When a client adds an object that the list already holds, the
  write changes the object in the list.  Here objects live in a store, addressed by
  natural numbers; the list holds addresses; a scoring function reads the store, so it may
  read any field of a state, also through the parent reference.
\<close>

record board_obj =
  obj_tiles :: string
  obj_n :: int
  obj_space_ind :: int
  obj_heuristic :: "int option"
  obj_depth :: int
  obj_parent :: "nat option"

type_synonym store = "nat \<Rightarrow> board_obj"

text \<open>\<open>generate_heuristic\<close>: the Manhattan distance of the two objects, written into the
  first in place.\<close>

definition generate_heuristic_in :: "store \<Rightarrow> nat \<Rightarrow> nat \<Rightarrow> error + store" where
  "generate_heuristic_in st self goal =
     bind_err
       (manhattan_loop (obj_n (st self)) (obj_tiles (st goal)) 0 (obj_tiles (st self)) 0)
       (\<lambda>h. Inr (st(self := (st self)\<lparr>obj_heuristic := Some h\<rparr>)))"

text \<open>The fields of a \<open>PriorityQueue\<close> object: its sorted list and the two counters of the
  base class (\<open>_uses_heuristic\<close> is true).  The scoring function is a parameter of the
  operations.\<close>

record ref_queue =
  rq_sorted_list :: "nat list"
  rq_num_created :: int
  rq_max_fringe :: int

definition PriorityQueue_new :: ref_queue where
  "PriorityQueue_new = \<lparr>rq_sorted_list = [], rq_num_created = - 1, rq_max_fringe = 0\<rparr>"

text \<open>\<open>add\<close> of a \<open>PriorityQueue\<close>: the heuristic is written, then \<open>insort_left\<close> runs with
  the negated scoring function, which reads the objects as they are after the write.\<close>

definition PriorityQueue_add ::
  "(store \<Rightarrow> nat \<Rightarrow> error + int) \<Rightarrow> ref_queue \<Rightarrow> store \<Rightarrow> nat \<Rightarrow> nat
     \<Rightarrow> error + (ref_queue \<times> store)" where
  "PriorityQueue_add f self st state goal =
     bind_err (generate_heuristic_in st state goal) (\<lambda>st'.
     bind_err (insort_left (rq_sorted_list self) state (negated (f st'))) (\<lambda>l.
       let self1 = self\<lparr>rq_sorted_list := l, rq_num_created := rq_num_created self + 1\<rparr>
       in Inr (if int (length l) > rq_max_fringe self1
               then self1\<lparr>rq_max_fringe := int (length l)\<rparr> else self1, st')))"

text \<open>\<open>remove\<close> of a \<open>PriorityQueue\<close>: the right end of the list, \<open>None\<close> when it is
  empty.\<close>

definition PriorityQueue_remove :: "ref_queue \<Rightarrow> nat option \<times> ref_queue" where
  "PriorityQueue_remove self =
     (if length (rq_sorted_list self) \<noteq> 0
      then (Some (last (rq_sorted_list self)),
            self\<lparr>rq_sorted_list := butlast (rq_sorted_list self)\<rparr>)
      else (None, self))"

text \<open>The scoring functions of GBFS and A* on an object of the store.\<close>

definition f_GBFS_in :: "store \<Rightarrow> nat \<Rightarrow> error + int" where
  "f_GBFS_in st state =
     (case obj_heuristic (st state) of None \<Rightarrow> Inl TypeError | Some h \<Rightarrow> Inr h)"

definition f_AStar_in :: "store \<Rightarrow> nat \<Rightarrow> error + int" where
  "f_AStar_in st state =
     (case obj_heuristic (st state) of
        None \<Rightarrow> Inl TypeError
      | Some h \<Rightarrow> Inr (obj_depth (st state) + h))"

section \<open>Vocabulary of the claims about boards\<close>

text \<open>
  A valid state: the invariants of a board built by \<open>create\<close> and kept by the moves.
\<close>

definition valid :: "SlideBoard \<Rightarrow> bool" where
  "valid s =
     (0 < board_n s \<and> int (length (tiles s)) = board_n s * board_n s \<and>
      0 \<le> space_ind s \<and> space_ind s < int (length (tiles s)) \<and>
      tiles s ! nat (space_ind s) = blank \<and> distinct (tiles s))"

text \<open>The four successor functions, addressed by a direction.\<close>

datatype direction = Up | Down | Left | Right

fun move :: "direction \<Rightarrow> SlideBoard \<Rightarrow> error + SlideBoard option" where
  "move Up s = space_up s"
| "move Down s = space_down s"
| "move Left s = space_left s"
| "move Right s = space_right s"

text \<open>The blank is on the edge the move would cross: first or last row (the row is
  \<open>space_ind div n\<close>), first or last column (the column is \<open>space_ind mod n\<close>).\<close>

fun on_edge :: "direction \<Rightarrow> SlideBoard \<Rightarrow> bool" where
  "on_edge Up s = (space_ind s div board_n s = 0)"
| "on_edge Down s = (space_ind s div board_n s = board_n s - 1)"
| "on_edge Left s = (space_ind s mod board_n s = 0)"
| "on_edge Right s = (space_ind s mod board_n s = board_n s - 1)"

text \<open>The change of the blank index: \<open>\<plusminus>n\<close> vertically, \<open>\<plusminus>1\<close> horizontally.\<close>

fun offset :: "direction \<Rightarrow> SlideBoard \<Rightarrow> int" where
  "offset Up s = - board_n s"
| "offset Down s = board_n s"
| "offset Left s = - 1"
| "offset Right s = 1"

fun opposite :: "direction \<Rightarrow> direction" where
  "opposite Up = Down"
| "opposite Down = Up"
| "opposite Left = Right"
| "opposite Right = Left"

text \<open>The symbols at two positions exchanged.\<close>

definition swapped :: "'a list \<Rightarrow> nat \<Rightarrow> nat \<Rightarrow> 'a list" where
  "swapped xs i j = xs[i := xs ! j, j := xs ! i]"

section \<open>Vocabulary of the claim about the heuristic\<close>

text \<open>
  The position of a symbol in a sequence of tiles (its first occurrence), its row and its
  column on the board, and the Manhattan distance between two boards as the claim words
  it: the sum over the non-blank symbols of the receiver of the row distance plus the
  column distance between the symbol's position in the receiver and in the goal.
\<close>

definition position :: "'a list \<Rightarrow> 'a \<Rightarrow> int" where
  "position xs c = int (length (takeWhile (\<lambda>x. x \<noteq> c) xs))"

definition row_of :: "SlideBoard \<Rightarrow> char \<Rightarrow> int" where
  "row_of s c = position (tiles s) c div board_n s"

definition col_of :: "SlideBoard \<Rightarrow> char \<Rightarrow> int" where
  "col_of s c = position (tiles s) c mod board_n s"

definition manhattan_sum :: "SlideBoard \<Rightarrow> SlideBoard \<Rightarrow> int" where
  "manhattan_sum s g =
     (\<Sum>c \<in> set (tiles s) - {blank}.
        \<bar>row_of g c - row_of s c\<bar> + \<bar>col_of g c - col_of s c\<bar>)"

section \<open>Vocabulary of the claims about the fringe\<close>

text \<open>
  A client of a fringe calls \<open>add\<close> and \<open>remove\<close>.  \<open>run_ops\<close> runs a sequence of such
  calls and returns, for every call, the value returned (\<open>None\<close> for \<open>add\<close>) and the
  fringe after the call; an exception ends the run.  The two counters of a fringe do not
  depend on the states it holds.
\<close>

datatype fringe_op = Add SlideBoard SlideBoard | Remove

fun apply_op :: "Fringe \<Rightarrow> fringe_op \<Rightarrow> error + (SlideBoard option \<times> Fringe)" where
  "apply_op fr (Add state goal) = bind_err (add fr state goal) (\<lambda>fr'. Inr (None, fr'))"
| "apply_op fr Remove = remove fr"

fun run_ops :: "Fringe \<Rightarrow> fringe_op list \<Rightarrow> error + (SlideBoard option \<times> Fringe) list" where
  "run_ops fr [] = Inr []"
| "run_ops fr (opn # ops) =
     bind_err (apply_op fr opn) (\<lambda>(r, fr').
     bind_err (run_ops fr' ops) (\<lambda>rest. Inr ((r, fr') # rest)))"

text \<open>
  A client of a priority queue over a store: a sequence of \<open>add(state, goal)\<close> and
  \<open>remove()\<close> calls on objects of the store.  \<open>run_refs\<close> returns, for every call, the
  value returned (\<open>None\<close> for \<open>add\<close>), the queue and the store after the call; an
  exception ends the run.
\<close>

datatype ref_op = AddRef nat nat | RemoveRef

fun run_refs ::
  "(store \<Rightarrow> nat \<Rightarrow> error + int) \<Rightarrow> ref_queue \<Rightarrow> store \<Rightarrow> ref_op list
     \<Rightarrow> error + (nat option \<times> ref_queue \<times> store) list" where
  "run_refs f q st [] = Inr []"
| "run_refs f q st (AddRef state goal # ops) =
     bind_err (PriorityQueue_add f q st state goal) (\<lambda>(q', st').
     bind_err (run_refs f q' st' ops) (\<lambda>rest. Inr ((None, q', st') # rest)))"
| "run_refs f q st (RemoveRef # ops) =
     (case PriorityQueue_remove q of (r, q') \<Rightarrow>
        bind_err (run_refs f q' st ops) (\<lambda>rest. Inr ((r, q', st) # rest)))"

text \<open>
  The contract of the priority queue in the words of the specification.  The entries stored
  are kept in the order of their insertion; \<open>score f x\<close> is the f-value of an entry (every
  stored entry has one, because \<open>add\<close> computes it); \<open>first_min\<close> is the first
  inserted entry among those of minimal f-value.  \<open>spec_outputs\<close> lists what the calls
  return under this contract, the f-values being read from the store as it is at the call.
\<close>

definition score :: "('a \<Rightarrow> error + int) \<Rightarrow> 'a \<Rightarrow> int" where
  "score f x = (case f x of Inr v \<Rightarrow> v | Inl e \<Rightarrow> 0)"

definition first_min :: "('a \<Rightarrow> error + int) \<Rightarrow> 'a list \<Rightarrow> 'a option" where
  "first_min f stored = find (\<lambda>x. \<forall>y \<in> set stored. score f x \<le> score f y) stored"

fun spec_outputs ::
  "(store \<Rightarrow> nat \<Rightarrow> error + int) \<Rightarrow> store \<Rightarrow> nat list \<Rightarrow> ref_op list \<Rightarrow> nat option list" where
  "spec_outputs f st stored [] = []"
| "spec_outputs f st stored (AddRef state goal # ops) =
     (case generate_heuristic_in st state goal of
        Inl e \<Rightarrow> []
      | Inr st' \<Rightarrow> None # spec_outputs f st' (stored @ [state]) ops)"
| "spec_outputs f st stored (RemoveRef # ops) =
     (case first_min (f st) stored of
        None \<Rightarrow> None # spec_outputs f st stored ops
      | Some x \<Rightarrow> Some x # spec_outputs f st (remove1 x stored) ops)"

text \<open>
  No \<open>add\<close> of the run changes the f-value of an entry that the queue holds at that time.
  It is so when every object is added once and the scoring function reads the fields of
  the state only; it is not so when a stored object is added again with a goal that gives
  it another heuristic.
\<close>

fun steady ::
  "(store \<Rightarrow> nat \<Rightarrow> error + int) \<Rightarrow> ref_queue \<Rightarrow> store \<Rightarrow> ref_op list \<Rightarrow> bool" where
  "steady f q st [] = True"
| "steady f q st (AddRef state goal # ops) =
     (case PriorityQueue_add f q st state goal of
        Inl e \<Rightarrow> True
      | Inr (q', st') \<Rightarrow>
          list_all (\<lambda>x. f st' x = f st x) (rq_sorted_list q) \<and> steady f q' st' ops)"
| "steady f q st (RemoveRef # ops) = steady f (snd (PriorityQueue_remove q)) st ops"

text \<open>A store for the examples: the states \<open> 123\<close> (address 0 and, a second object,
  address 3), \<open>21 3\<close> (address 1) and \<open>213 \<close> (address 2) of the 2 x 2 board, none with a
  heuristic yet.\<close>

definition example_store :: store where
  "example_store =
     (\<lambda>r. \<lparr>obj_tiles = [], obj_n = 0, obj_space_ind = 0, obj_heuristic = None,
            obj_depth = 0, obj_parent = None\<rparr>)
     (0 := \<lparr>obj_tiles = '' 123'', obj_n = 2, obj_space_ind = 0, obj_heuristic = None,
            obj_depth = 0, obj_parent = None\<rparr>,
      1 := \<lparr>obj_tiles = ''21 3'', obj_n = 2, obj_space_ind = 2, obj_heuristic = None,
            obj_depth = 0, obj_parent = None\<rparr>,
      2 := \<lparr>obj_tiles = ''213 '', obj_n = 2, obj_space_ind = 3, obj_heuristic = None,
            obj_depth = 0, obj_parent = None\<rparr>,
      3 := \<lparr>obj_tiles = '' 123'', obj_n = 2, obj_space_ind = 0, obj_heuristic = None,
            obj_depth = 0, obj_parent = None\<rparr>)"

text \<open>The number of \<open>add\<close> calls, the fringe after a run and the sizes the fringe has had
  during a run, the initial size included.\<close>

fun count_adds :: "fringe_op list \<Rightarrow> nat" where
  "count_adds [] = 0"
| "count_adds (Add state goal # ops) = Suc (count_adds ops)"
| "count_adds (Remove # ops) = count_adds ops"

definition fringe_after :: "Fringe \<Rightarrow> (SlideBoard option \<times> Fringe) list \<Rightarrow> Fringe" where
  "fringe_after fr res = last (fr # map snd res)"

definition sizes :: "Fringe \<Rightarrow> (SlideBoard option \<times> Fringe) list \<Rightarrow> int list" where
  "sizes fr res = map (\<lambda>q. int (len q)) (fr # map snd res)"

text \<open>
  Invariants for the proofs.  \<open>stable_for sc r st\<close>: the list \<open>r\<close> is \<open>st\<close> sorted by
  \<open>sc\<close> with equal elements in their order in \<open>st\<close>.  \<open>queue_inv\<close>: every entry of the
  sorted list has an f-value, and the list, read from its right end, is the stored entries
  in that order.
\<close>

definition stable_for :: "('a \<Rightarrow> int) \<Rightarrow> 'a list \<Rightarrow> 'a list \<Rightarrow> bool" where
  "stable_for sc r st =
     (sorted (map sc r) \<and> (\<forall>k. filter (\<lambda>y. sc y = k) r = filter (\<lambda>y. sc y = k) st))"

definition queue_inv :: "('a \<Rightarrow> error + int) \<Rightarrow> 'a list \<Rightarrow> 'a list \<Rightarrow> bool" where
  "queue_inv g l stored =
     ((\<forall>y \<in> set l. \<exists>v. g y = Inr v) \<and> stable_for (score g) (rev l) stored)"

section \<open>Vocabulary of the claims about the search\<close>

text \<open>The directions in which a move from a state succeeds, in the order in which the
  driver tries them.\<close>

definition legal_moves :: "SlideBoard \<Rightarrow> direction list" where
  "legal_moves s =
     filter (\<lambda>d. case move d s of Inr (Some s') \<Rightarrow> True | _ \<Rightarrow> False) [Up, Down, Left, Right]"

text \<open>
  What the driver may return: the failure tuple \<open>(None, -1, 0, 0, 0)\<close>, or a node equal to
  the goal together with its depth.
\<close>

definition search_ok :: "SlideBoard \<Rightarrow> search_result \<Rightarrow> bool" where
  "search_ok goal r =
     (case r of
        (None, d, c, e, m) \<Rightarrow> d = - 1 \<and> c = 0 \<and> e = 0 \<and> m = 0
      | (Some node, d, c, e, m) \<Rightarrow> d = depth node \<and> board_eq node goal)"

text \<open>
  Invariants for the proof that the driver returns.  \<open>entries\<close> lists what a fringe
  holds.  \<open>M\<close> is the multiset of the symbols of the start state.  Every state in the
  fringe is valid and an arrangement of \<open>M\<close>; a priority queue is used with the
  heuristic, holds states whose heuristic is present, has a key function that succeeds on
  such states, and every non-blank symbol occurs in the goal.  The expanded set holds
  arrangements of \<open>M\<close> with different tiles.
\<close>

definition entries :: "Fringe \<Rightarrow> SlideBoard list" where
  "entries fr = (case contents fr of Queue d \<Rightarrow> d | Stack s \<Rightarrow> s | PriorityQueue l key \<Rightarrow> l)"

definition fringe_inv :: "char multiset \<Rightarrow> SlideBoard \<Rightarrow> Fringe \<Rightarrow> bool" where
  "fringe_inv M goal fr =
     ((\<forall>x \<in> set (entries fr). valid x \<and> mset (tiles x) = M) \<and>
      (case contents fr of
         PriorityQueue l key \<Rightarrow>
           uses_heuristic fr \<and> set_mset M - {blank} \<subseteq> set (tiles goal) \<and>
           (\<forall>x \<in> set l. heuristic x \<noteq> None) \<and>
           (\<forall>x. heuristic x \<noteq> None \<longrightarrow> (\<exists>v. key x = Inr v))
       | _ \<Rightarrow> \<not> uses_heuristic fr))"

definition expanded_inv :: "char multiset \<Rightarrow> SlideBoard list \<Rightarrow> bool" where
  "expanded_inv M ex = ((\<forall>e \<in> set ex. mset (tiles e) = M) \<and> distinct (map tiles ex))"

section \<open>Lists, indices and the moves\<close>

lemma str_index_Inr:
  "c \<in> set xs \<Longrightarrow> \<exists>i. str_index xs c = Inr i \<and> i < length xs \<and> xs ! i = c \<and> (\<forall>j<i. xs ! j \<noteq> c)"
proof (induction xs)
  case Nil
  then show ?case by simp
next
  case (Cons x xs)
  show ?case
  proof (cases "x = c")
    case True
    then show ?thesis by simp
  next
    case False
    with Cons.prems have "c \<in> set xs" by simp
    from Cons.IH[OF this] obtain i where i: "str_index xs c = Inr i" "i < length xs" "xs ! i = c"
      "\<forall>j<i. xs ! j \<noteq> c" by blast
    have "\<forall>j<Suc i. (x # xs) ! j \<noteq> c"
      using False i(4) by (simp add: nth_Cons split: nat.split)
    with False i show ?thesis by simp
  qed
qed

lemma str_index_Inl: "c \<notin> set xs \<Longrightarrow> str_index xs c = Inl ValueError"
  by (induction xs) auto

lemma str_index_distinct:
  "distinct xs \<Longrightarrow> i < length xs \<Longrightarrow> str_index xs (xs ! i) = Inr i"
proof -
  assume d: "distinct xs" and i: "i < length xs"
  then have "xs ! i \<in> set xs" by simp
  from str_index_Inr[OF this] obtain k where k: "str_index xs (xs ! i) = Inr k" "k < length xs" "xs ! k = xs ! i"
    by blast
  with d i have "k = i" by (simp add: nth_eq_iff_index_eq)
  with k show ?thesis by simp
qed

lemma update_two:
  "(A @ a # B @ b # C)[length A := x, Suc (length A + length B) := y] = A @ x # B @ y # C"
  by (simp add: list_update_append)

lemma swap_pieces:
  assumes "i < j" "j < length xs"
  shows "take i xs @ [xs ! j] @ take (j - Suc i) (drop (Suc i) xs) @ [xs ! i] @ drop (Suc j) xs
         = xs[i := xs ! j, j := xs ! i]"
proof -
  define A where "A = take i xs"
  define B where "B = take (j - Suc i) (drop (Suc i) xs)"
  define C where "C = drop (Suc j) xs"
  have lA: "length A = i" and lB: "length B = j - Suc i"
    using assms by (simp_all add: A_def B_def)
  have j: "j = Suc (length A + length B)"
    using assms lA lB by simp
  have d: "drop (Suc i) xs = B @ xs ! j # C"
    using assms id_take_nth_drop[of "j - Suc i" "drop (Suc i) xs"]
    by (simp add: B_def C_def)
  have xs: "xs = A @ xs ! i # B @ xs ! j # C"
    using assms id_take_nth_drop[of i xs] d by (simp add: A_def)
  have "(A @ xs ! i # B @ xs ! j # C)[length A := xs ! j, Suc (length A + length B) := xs ! i]
        = A @ xs ! j # B @ xs ! i # C"
    by (rule update_two)
  then have "xs[i := xs ! j, j := xs ! i] = A @ xs ! j # B @ xs ! i # C"
    using xs lA j by metis
  then show ?thesis by (simp add: A_def B_def C_def)
qed

lemma space_move_swapped:
  assumes "0 \<le> space_ind s" "space_ind s < int (length (tiles s))"
    "0 \<le> np" "np < int (length (tiles s))" "np \<noteq> space_ind s"
  shows "space_move s True np =
     Inr (Some (SlideBoard (swapped (tiles s) (nat (space_ind s)) (nat np)) (board_n s) np None
        (depth s + 1) (Some s)))"
proof (cases "space_ind s < np")
  case True
  let ?i = "nat (space_ind s)" and ?j = "nat np"
  have ij: "?i < ?j" "?j < length (tiles s)" using assms True by auto
  have b: "py_bound (tiles s) (space_ind s) = ?i" "py_bound (tiles s) np = ?j"
     "py_bound (tiles s) (space_ind s + 1) = Suc ?i"
     "py_bound (tiles s) (np + 1) = Suc ?j"
    using assms True by (auto simp: py_bound_def Let_def min_def nat_add_distrib)
  from swap_pieces[OF ij] show ?thesis
    using assms True ij
    by (simp add: space_move_def py_get_def bind_err_def Let_def min_def max_def init_def
        py_slice_def py_slice_to_def py_slice_from_def b swapped_def)
next
  case False
  let ?j = "nat (space_ind s)" and ?i = "nat np"
  have ij: "?i < ?j" "?j < length (tiles s)" using assms False by auto
  have b: "py_bound (tiles s) (space_ind s) = ?j" "py_bound (tiles s) np = ?i"
     "py_bound (tiles s) (space_ind s + 1) = Suc ?j"
     "py_bound (tiles s) (np + 1) = Suc ?i"
    using assms False by (auto simp: py_bound_def Let_def min_def nat_add_distrib)
  have "swapped (tiles s) ?j ?i = (tiles s)[?i := tiles s ! ?j, ?j := tiles s ! ?i]"
    using assms False list_update_swap[of "?j" "?i" "tiles s"] by (simp add: swapped_def)
  with swap_pieces[OF ij] show ?thesis
    using assms False ij
    by (simp add: space_move_def py_get_def bind_err_def Let_def min_def max_def init_def
        py_slice_def py_slice_to_def py_slice_from_def b)
qed

lemma mset_swapped: "i < length xs \<Longrightarrow> j < length xs \<Longrightarrow> mset (swapped xs i j) = mset xs"
  by (simp add: swapped_def mset_swap)

lemma length_swapped: "length (swapped xs i j) = length xs"
  by (simp add: swapped_def)

lemma up_edge: "0 < n \<Longrightarrow> 0 \<le> (sp::int) \<Longrightarrow> (sp div n = 0) = (\<not> n \<le> sp)"
  using zdiv_eq_0_iff by fastforce

lemma left_in: "0 < n \<Longrightarrow> 0 \<le> (sp::int) \<Longrightarrow> sp mod n \<noteq> 0 \<Longrightarrow> 1 \<le> sp"
  using int_one_le_iff_zero_less by fastforce

lemma split_ind:
  "0 < (n::int) \<Longrightarrow> sp = sp div n * n + sp mod n \<and> 0 \<le> sp mod n \<and> sp mod n < n"
  by simp

lemma div_lt_side:
  assumes "0 < n" "(sp::int) < n * n"
  shows "sp div n < n"
proof (rule ccontr)
  assume "\<not> sp div n < n"
  then have "n \<le> sp div n" by simp
  then have "n * n \<le> sp div n * n"
    using assms(1) by (simp add: mult_right_mono)
  moreover have "sp = sp div n * n + sp mod n" "0 \<le> sp mod n"
    using split_ind[OF assms(1), of sp] by simp_all
  ultimately show False using assms(2) by linarith
qed

lemma div_ge_side:
  assumes "0 < n" "n * n - n \<le> (sp::int)"
  shows "n - 1 \<le> sp div n"
proof (rule ccontr)
  assume "\<not> n - 1 \<le> sp div n"
  then have "sp div n + 2 \<le> n" by simp
  then have "(sp div n + 2) * n \<le> n * n"
    using assms(1) by (simp add: mult_right_mono)
  then have "sp div n * n + 2 * n \<le> n * n"
    by (simp add: algebra_simps)
  moreover have "sp = sp div n * n + sp mod n" "sp mod n < n"
    using split_ind[OF assms(1), of sp] by simp_all
  ultimately show False using assms by linarith
qed

lemma last_mod: "0 < (n::int) \<Longrightarrow> (n * n - 1) mod n = n - 1"
  by (metis add_uminus_conv_diff mod_mult_self4 zmod_minus1)

lemma down_edge:
  assumes "0 < n" "0 \<le> (sp::int)" "sp < n * n"
  shows "(sp div n = n - 1) = (\<not> sp < n ^ 2 - n)"
proof
  assume q: "sp div n = n - 1"
  have "sp = sp div n * n + sp mod n" "0 \<le> sp mod n"
    using split_ind[OF assms(1), of sp] by simp_all
  then have "sp \<ge> (n - 1) * n" using q by simp
  then show "\<not> sp < n ^ 2 - n" by (simp add: power2_eq_square algebra_simps)
next
  assume "\<not> sp < n ^ 2 - n"
  then have "n * n - n \<le> sp" by (simp add: power2_eq_square)
  from div_ge_side[OF assms(1) this] div_lt_side[OF assms(1,3)]
  show "sp div n = n - 1" by simp
qed

lemma right_in:
  assumes "0 < n" "0 \<le> (sp::int)" "sp < n * n" "sp mod n \<noteq> n - 1"
  shows "sp + 1 < n * n"
proof (rule ccontr)
  assume "\<not> sp + 1 < n * n"
  with assms(3) have "sp = n * n - 1" by simp
  with last_mod[OF assms(1)] assms(4) show False by simp
qed

lemma target_in_range:
  assumes "valid s" "\<not> on_edge d s"
  shows "0 \<le> space_ind s + offset d s \<and> space_ind s + offset d s < int (length (tiles s))
         \<and> space_ind s + offset d s \<noteq> space_ind s"
proof (cases d)
  case Up
  then show ?thesis using assms up_edge[of "board_n s" "space_ind s"]
    by (simp add: valid_def)
next
  case Down
  then show ?thesis using assms down_edge[of "board_n s" "space_ind s"]
    by (simp add: valid_def power2_eq_square)
next
  case Left
  then show ?thesis using assms left_in[of "board_n s" "space_ind s"]
    by (simp add: valid_def)
next
  case Right
  then show ?thesis using assms right_in[of "board_n s" "space_ind s"]
    by (simp add: valid_def)
qed

lemma move_on_edge:
  assumes "valid s" "on_edge d s"
  shows "move d s = Inr None"
proof (cases d)
  case Up
  then show ?thesis using assms up_edge[of "board_n s" "space_ind s"]
    by (simp add: valid_def space_up_def space_move_def)
next
  case Down
  then show ?thesis using assms down_edge[of "board_n s" "space_ind s"]
    by (simp add: valid_def space_down_def space_move_def)
next
  case Left
  then show ?thesis using assms
    by (simp add: valid_def space_left_def space_move_def)
next
  case Right
  then show ?thesis using assms
    by (simp add: valid_def space_right_def space_move_def)
qed

lemma move_off_edge:
  assumes "valid s" "\<not> on_edge d s"
  shows "move d s =
     Inr (Some (SlideBoard
       (swapped (tiles s) (nat (space_ind s)) (nat (space_ind s + offset d s)))
       (board_n s) (space_ind s + offset d s) None (depth s + 1) (Some s)))"
proof -
  have r: "0 \<le> space_ind s" "space_ind s < int (length (tiles s))"
    using assms(1) by (simp_all add: valid_def)
  note t = target_in_range[OF assms]
  have m: "space_move s True (space_ind s + offset d s) =
     Inr (Some (SlideBoard
       (swapped (tiles s) (nat (space_ind s)) (nat (space_ind s + offset d s)))
       (board_n s) (space_ind s + offset d s) None (depth s + 1) (Some s)))"
    using space_move_swapped[OF r, of "space_ind s + offset d s"] t by blast
  show ?thesis
  proof (cases d)
    case Up
    then show ?thesis using assms m up_edge[of "board_n s" "space_ind s"]
      by (simp add: valid_def space_up_def)
  next
    case Down
    then show ?thesis using assms m down_edge[of "board_n s" "space_ind s"]
      by (simp add: valid_def space_down_def)
  next
    case Left
    then show ?thesis using assms m
      by (simp add: valid_def space_left_def)
  next
    case Right
    then show ?thesis using assms m
      by (simp add: valid_def space_right_def)
  qed
qed

lemma swapped_nth:
  "i < length xs \<Longrightarrow> j < length xs \<Longrightarrow> swapped xs i j ! j = xs ! i \<and> swapped xs i j ! i = xs ! j"
  by (cases "i = j") (simp_all add: swapped_def)

lemma swapped_back:
  "i < length xs \<Longrightarrow> j < length xs \<Longrightarrow> swapped (swapped xs i j) j i = xs"
  by (cases "i = j") (simp_all add: swapped_def list_update_swap[of j i])

lemma valid_successor:
  assumes "valid s" "\<not> on_edge d s"
  shows "valid (SlideBoard
       (swapped (tiles s) (nat (space_ind s)) (nat (space_ind s + offset d s)))
       (board_n s) (space_ind s + offset d s) None (depth s + 1) (Some s))"
proof -
  note t = target_in_range[OF assms]
  have i: "nat (space_ind s) < length (tiles s)" "nat (space_ind s + offset d s) < length (tiles s)"
    using assms(1) t by (auto simp: valid_def)
  have "distinct (swapped (tiles s) (nat (space_ind s)) (nat (space_ind s + offset d s)))"
    using mset_swapped[OF i] assms(1) by (metis valid_def mset_eq_imp_distinct_iff)
  then show ?thesis
    using assms(1) t swapped_nth[OF i] by (simp add: valid_def length_swapped)
qed

lemma left_right:
  assumes "0 < (n::int)" "sp mod n \<noteq> 0"
  shows "(sp - 1) mod n \<noteq> n - 1"
proof
  assume "(sp - 1) mod n = n - 1"
  then have "((sp - 1) mod n + 1) mod n = 0" by simp
  then have "(sp - 1 + 1) mod n = 0" by (simp only: mod_add_left_eq)
  with assms(2) show False by simp
qed

lemma right_left:
  assumes "0 < (n::int)" "sp mod n \<noteq> n - 1"
  shows "(sp + 1) mod n \<noteq> 0"
proof
  assume "(sp + 1) mod n = 0"
  then have "((sp + 1) mod n - 1) mod n = n - 1"
    using assms(1) by (simp add: zmod_minus1)
  then have "(sp + 1 - 1) mod n = n - 1" by (simp only: mod_diff_left_eq)
  with assms(2) show False by simp
qed

lemma opposite_off_edge:
  assumes "valid s" "\<not> on_edge d s"
  shows "\<not> on_edge (opposite d)
     (SlideBoard ts (board_n s) (space_ind s + offset d s) h dp p)"
proof -
  note t = target_in_range[OF assms]
  have n: "0 < board_n s" "space_ind s < board_n s * board_n s" "0 \<le> space_ind s"
    using assms(1) by (simp_all add: valid_def)
  show ?thesis
  proof (cases d)
    case Up
    then show ?thesis
      using n t down_edge[of "board_n s" "space_ind s - board_n s"]
      by (simp add: power2_eq_square)
  next
    case Down
    then show ?thesis
      using n t up_edge[of "board_n s" "space_ind s + board_n s"] by simp
  next
    case Left
    then show ?thesis using n assms(2) left_right[of "board_n s" "space_ind s"] by simp
  next
    case Right
    then show ?thesis using n assms(2) right_left[of "board_n s" "space_ind s"] by simp
  qed
qed

lemma offset_opposite:
  "offset (opposite d) (SlideBoard ts (board_n s) sp h dp p) = - offset d s"
  by (cases d) simp_all

lemma remdups_length_distinct: "(length (remdups xs) \<noteq> length xs) = (\<not> distinct xs)"
  by (simp add: length_remdups_eq remdups_id_iff_distinct)

lemma create_ok:
  assumes "0 < n" "int (length str_rep) = n * n" "blank \<in> set str_rep" "distinct str_rep"
  shows "\<exists>i. create str_rep n = Inr (SlideBoard str_rep n (int i) None 0 None) \<and>
             i < length str_rep \<and> str_rep ! i = blank"
proof -
  from str_index_Inr[OF assms(3)] obtain i where
    i: "str_index str_rep blank = Inr i" "i < length str_rep" "str_rep ! i = blank"
    by blast
  then show ?thesis
    using assms by (simp add: create_def remdups_length_distinct bind_err_def init_def)
qed

lemma create_valid:
  assumes "create str_rep n = Inr s"
  shows "valid s \<and> tiles s = str_rep \<and> board_n s = n \<and> depth s = 0 \<and> parent s = None
         \<and> heuristic s = None"
proof -
  have c: "0 < n" "int (length str_rep) = n * n" "blank \<in> set str_rep" "distinct str_rep"
    using assms by (auto simp: create_def remdups_length_distinct split: if_splits)
  from create_ok[OF c] assms c show ?thesis
    by (auto simp: valid_def)
qed

section \<open>The Manhattan loop\<close>

lemma str_index_position:
  "c \<in> set xs \<Longrightarrow> str_index xs c = Inr (length (takeWhile (\<lambda>x. x \<noteq> c) xs))"
  by (induction xs) auto

lemma position_nth:
  "distinct xs \<Longrightarrow> k < length xs \<Longrightarrow> position xs (xs ! k) = int k"
proof -
  assume d: "distinct xs" and k: "k < length xs"
  then have "str_index xs (xs ! k) = Inr k" by (rule str_index_distinct)
  moreover have "str_index xs (xs ! k) = Inr (length (takeWhile (\<lambda>x. x \<noteq> xs ! k) xs))"
    using k by (simp add: str_index_position)
  ultimately show ?thesis by (simp add: position_def)
qed

lemma manhattan_loop_sum:
  assumes "n \<noteq> 0" "set rest - {blank} \<subseteq> set gs"
  shows "manhattan_loop n gs ind rest acc =
     Inr (acc + (\<Sum>k<length rest.
        if rest ! k = blank then 0
        else \<bar>position gs (rest ! k) div n - (ind + int k) div n\<bar>
           + \<bar>position gs (rest ! k) mod n - (ind + int k) mod n\<bar>))"
  using assms(2)
proof (induction rest arbitrary: ind acc)
  case Nil
  then show ?case by simp
next
  case (Cons tile rest)
  have sub: "set rest - {blank} \<subseteq> set gs" using Cons.prems by auto
  note IH = Cons.IH[OF sub]
  show ?case
  proof (cases "tile = blank")
    case True
    then show ?thesis
      by (simp add: IH sum.lessThan_Suc_shift ac_simps del: sum.lessThan_Suc cong: if_cong)
  next
    case False
    then have "tile \<in> set gs" using Cons.prems by auto
    then have "str_index gs tile = Inr (length (takeWhile (\<lambda>x. x \<noteq> tile) gs))"
      by (rule str_index_position)
    then show ?thesis
      using False assms(1)
      by (simp add: IH sum.lessThan_Suc_shift ac_simps position_def Let_def
          del: sum.lessThan_Suc cong: if_cong)
  qed
qed

lemma sum_over_symbols:
  assumes "distinct xs"
  shows "(\<Sum>k<length xs. if xs ! k = b then 0 else F (xs ! k) (int k))
       = (\<Sum>c \<in> set xs - {b}. F c (position xs c))"
proof -
  have "(\<Sum>k<length xs. if xs ! k = b then 0 else F (xs ! k) (int k))
      = (\<Sum>k<length xs. if xs ! k = b then 0 else F (xs ! k) (position xs (xs ! k)))"
    using assms by (intro sum.cong) (simp_all add: position_nth)
  also have "\<dots> = (\<Sum>c \<in> set xs. if c = b then 0 else F c (position xs c))"
    using assms
    by (intro sum.reindex_bij_betw[where h = "(!) xs"]) (simp add: bij_betw_nth)
  also have "\<dots> = (\<Sum>c \<in> set xs - {b}. F c (position xs c))"
    by (intro sum.mono_neutral_cong_right) auto
  finally show ?thesis .
qed

section \<open>The binary search and the sorted list\<close>

lemma bisect_left_correct:
  assumes "\<forall>y \<in> set a. key y = Inr (kv y)"
    and "sorted (map kv a)"
    and "lo \<le> hi" "hi \<le> length a"
    and "\<forall>j<lo. kv (a ! j) < x"
    and "\<forall>j. hi \<le> j \<and> j < length a \<longrightarrow> x \<le> kv (a ! j)"
  shows "\<exists>r. bisect_left a x lo hi key = Inr r \<and> r \<le> length a \<and>
            (\<forall>j<r. kv (a ! j) < x) \<and> (\<forall>j. r \<le> j \<and> j < length a \<longrightarrow> x \<le> kv (a ! j))"
  using assms
proof (induction a x lo hi key rule: bisect_left.induct)
  case (1 a x lo hi key)
  note keys = "1.prems"(1) and srt = "1.prems"(2) and bounds = "1.prems"(3,4)
    and low = "1.prems"(5) and high = "1.prems"(6)
  show ?case
  proof (cases "lo < hi")
    case False
    then have "bisect_left a x lo hi key = Inr lo" by (simp add: bisect_left.simps)
    moreover have "lo = hi" using False bounds by simp
    ultimately show ?thesis using bounds low high by auto
  next
    case True
    define mid where "mid = (lo + hi) div 2"
    have m: "lo \<le> mid" "mid < hi" "mid < length a" using True bounds by (auto simp: mid_def)
    have g: "py_get a (int mid) = Inr (a ! mid)" using m by (simp add: py_get_def)
    have k: "key (a ! mid) = Inr (kv (a ! mid))" using keys m by simp
    show ?thesis
    proof (cases "kv (a ! mid) < x")
      case lt: True
      have step: "bisect_left a x lo hi key = bisect_left a x (mid + 1) hi key"
        using True lt g k
        by (subst bisect_left.simps) (simp add: Let_def bind_err_def mid_def[symmetric])
      have below: "\<forall>j<mid + 1. kv (a ! j) < x"
      proof (intro allI impI)
        fix j assume "j < mid + 1"
        then have "j \<le> mid" by simp
        then have "kv (a ! j) \<le> kv (a ! mid)"
          using srt m(3) by (simp add: sorted_iff_nth_mono)
        with lt show "kv (a ! j) < x" by simp
      qed
      have "\<exists>r. bisect_left a x (mid + 1) hi key = Inr r \<and> r \<le> length a \<and>
            (\<forall>j<r. kv (a ! j) < x) \<and> (\<forall>j. r \<le> j \<and> j < length a \<longrightarrow> x \<le> kv (a ! j))"
      proof (rule "1.IH"(1)[OF True mid_def lt])
        show "\<forall>y\<in>set a. key y = Inr (kv y)" by (rule keys)
        show "sorted (map kv a)" by (rule srt)
        show "mid + 1 \<le> hi" using m by simp
        show "hi \<le> length a" using bounds by simp
        show "\<forall>j<mid + 1. kv (a ! j) < x" by (rule below)
        show "\<forall>j. hi \<le> j \<and> j < length a \<longrightarrow> x \<le> kv (a ! j)" by (rule high)
      qed
      then show ?thesis by (simp only: step)
    next
      case ge: False
      have step: "bisect_left a x lo hi key = bisect_left a x lo mid key"
        using True ge g k
        by (subst bisect_left.simps) (simp add: Let_def bind_err_def mid_def[symmetric])
      have above: "\<forall>j. mid \<le> j \<and> j < length a \<longrightarrow> x \<le> kv (a ! j)"
      proof (intro allI impI)
        fix j assume "mid \<le> j \<and> j < length a"
        then have "kv (a ! mid) \<le> kv (a ! j)"
          using srt by (simp add: sorted_iff_nth_mono)
        with ge show "x \<le> kv (a ! j)" by simp
      qed
      have "\<exists>r. bisect_left a x lo mid key = Inr r \<and> r \<le> length a \<and>
            (\<forall>j<r. kv (a ! j) < x) \<and> (\<forall>j. r \<le> j \<and> j < length a \<longrightarrow> x \<le> kv (a ! j))"
      proof (rule "1.IH"(2)[OF True mid_def ge])
        show "\<forall>y\<in>set a. key y = Inr (kv y)" by (rule keys)
        show "sorted (map kv a)" by (rule srt)
        show "lo \<le> mid" using m by simp
        show "mid \<le> length a" using m by simp
        show "\<forall>j<lo. kv (a ! j) < x" by (rule low)
        show "\<forall>j. mid \<le> j \<and> j < length a \<longrightarrow> x \<le> kv (a ! j)" by (rule above)
      qed
      then show ?thesis by (simp only: step)
    qed
  qed
qed

lemma insort_left_correct:
  assumes "\<forall>y \<in> set a. key y = Inr (kv y)" "key x = Inr (kv x)" "sorted (map kv a)"
  shows "\<exists>lo. insort_left a x key = Inr (take lo a @ x # drop lo a) \<and> lo \<le> length a \<and>
           (\<forall>y \<in> set (take lo a). kv y < kv x) \<and> (\<forall>y \<in> set (drop lo a). kv x \<le> kv y)"
proof -
  from bisect_left_correct[OF assms(1,3), of 0 "length a" "kv x"]
  obtain r where r: "bisect_left a (kv x) 0 (length a) key = Inr r" "r \<le> length a"
    "\<forall>j<r. kv (a ! j) < kv x" "\<forall>j. r \<le> j \<and> j < length a \<longrightarrow> kv x \<le> kv (a ! j)"
    by auto
  have "\<forall>y \<in> set (take r a). kv y < kv x"
    using r(2,3) by (auto simp: in_set_conv_nth)
  moreover have "\<forall>y \<in> set (drop r a). kv x \<le> kv y"
    using r(2,4) by (auto simp: in_set_conv_nth)
  ultimately show ?thesis
    using r(1,2) assms(2) by (auto simp: insort_left_def bind_err_def list_insert_def)
qed

lemma stable_set_eq:
  assumes "stable_for sc r st"
  shows "set r = set st"
proof -
  have "y \<in> set r \<longleftrightarrow> y \<in> set st" for y
  proof -
    have "filter (\<lambda>z. sc z = sc y) r = filter (\<lambda>z. sc z = sc y) st"
      using assms by (simp add: stable_for_def)
    then have "set (filter (\<lambda>z. sc z = sc y) r) = set (filter (\<lambda>z. sc z = sc y) st)"
      by simp
    then show ?thesis by auto
  qed
  then show ?thesis by blast
qed

lemma stable_length_eq:
  assumes "stable_for sc r st"
  shows "r = [] \<longleftrightarrow> st = []"
  using stable_set_eq[OF assms] by (metis set_empty)

lemma find_filter:
  "find Q xs = (case filter Q xs of [] \<Rightarrow> None | y # ys \<Rightarrow> Some y)"
  by (induction xs) auto

lemma stable_hd:
  assumes "stable_for sc (x # r) st"
  shows "find (\<lambda>y. \<forall>z \<in> set st. sc y \<le> sc z) st = Some x"
proof -
  have s: "set st = set (x # r)" using stable_set_eq[OF assms] by simp
  have mn: "\<forall>z \<in> set st. sc x \<le> sc z"
    using assms s by (auto simp: stable_for_def)
  have "find (\<lambda>y. \<forall>z \<in> set st. sc y \<le> sc z) st = find (\<lambda>y. sc y = sc x) st"
  proof (rule find_cong[OF refl])
    fix y assume "y \<in> set st"
    with mn s show "(\<forall>z \<in> set st. sc y \<le> sc z) = (sc y = sc x)"
      by (metis dual_order.antisym list.set_intros(1))
  qed
  moreover have "filter (\<lambda>y. sc y = sc x) st = x # filter (\<lambda>y. sc y = sc x) r"
    using assms by (simp add: stable_for_def) (metis filter.simps(2))
  ultimately show ?thesis by (simp add: find_filter)
qed

lemma stable_tl:
  assumes "stable_for sc (x # r) st"
  shows "stable_for sc r (remove1 x st)"
proof -
  have srt: "sorted (map sc r)" using assms by (simp add: stable_for_def)
  have "filter (\<lambda>y. sc y = k) r = filter (\<lambda>y. sc y = k) (remove1 x st)" for k
  proof -
    have e: "filter (\<lambda>y. sc y = k) (x # r) = filter (\<lambda>y. sc y = k) st"
      using assms by (simp add: stable_for_def)
    show ?thesis
    proof (cases "sc x = k")
      case True
      then have "filter (\<lambda>y. sc y = k) (remove1 x st) = remove1 x (filter (\<lambda>y. sc y = k) st)"
        by (simp add: filter_remove1)
      also have "\<dots> = remove1 x (x # filter (\<lambda>y. sc y = k) r)"
        using e True by simp
      finally show ?thesis by simp
    next
      case False
      then have "filter (\<lambda>y. sc y = k) (remove1 x st) = filter (\<lambda>y. sc y = k) st"
        by (induction st) auto
      with e False show ?thesis by simp
    qed
  qed
  with srt show ?thesis by (simp add: stable_for_def)
qed

lemma stable_insert:
  assumes "stable_for sc (A @ B) st"
    and "\<forall>y \<in> set A. sc y \<le> sc x" "\<forall>y \<in> set B. sc x < sc y"
  shows "stable_for sc (A @ x # B) (st @ [x])"
proof -
  have srt: "sorted (map sc (A @ x # B))"
    using assms by (auto simp: stable_for_def sorted_append)
  have "filter (\<lambda>y. sc y = k) (A @ x # B) = filter (\<lambda>y. sc y = k) (st @ [x])" for k
  proof -
    have e: "filter (\<lambda>y. sc y = k) A @ filter (\<lambda>y. sc y = k) B = filter (\<lambda>y. sc y = k) st"
      using assms(1) by (simp add: stable_for_def flip: filter_append)
    show ?thesis
    proof (cases "sc x = k")
      case True
      then have "filter (\<lambda>y. sc y = k) B = []"
        using assms(3) by (auto simp: filter_empty_conv)
      with e True show ?thesis by simp
    next
      case False
      with e show ?thesis by simp
    qed
  qed
  with srt show ?thesis by (simp add: stable_for_def)
qed

lemma sorted_negated:
  "sorted (map sc (rev l)) \<Longrightarrow> sorted (map (\<lambda>y. - sc y) l)" for sc :: "'a \<Rightarrow> int"
  by (induction l) (auto simp: sorted_append)

lemma queue_inv_insort:
  assumes "queue_inv g l stored" "insort_left l x (negated g) = Inr l'"
  shows "queue_inv g l' (stored @ [x])"
proof -
  have ls: "\<forall>y \<in> set l. \<exists>v. g y = Inr v" and st: "stable_for (score g) (rev l) stored"
    using assms(1) by (simp_all add: queue_inv_def)
  from assms(2) obtain v where v: "g x = Inr v"
    by (cases "g x") (auto simp: insort_left_def bind_err_def negated_def)
  let ?kv = "\<lambda>y. - score g y"
  have k1: "\<forall>y \<in> set l. negated g y = Inr (?kv y)"
    using ls by (auto simp: negated_def bind_err_def score_def)
  have k2: "negated g x = Inr (?kv x)"
    using v by (simp add: negated_def bind_err_def score_def)
  have k3: "sorted (map ?kv l)"
    using st by (simp add: stable_for_def sorted_negated)
  from insort_left_correct[OF k1 k2 k3] assms(2) obtain lo where
    lo: "l' = take lo l @ x # drop lo l"
    "\<forall>y \<in> set (take lo l). ?kv y < ?kv x" "\<forall>y \<in> set (drop lo l). ?kv x \<le> ?kv y"
    by auto
  have "rev (drop lo l) @ rev (take lo l) = rev l"
    by (simp flip: rev_append)
  then have "stable_for (score g) (rev (drop lo l) @ rev (take lo l)) stored"
    using st by simp
  then have "stable_for (score g) (rev (drop lo l) @ x # rev (take lo l)) (stored @ [x])"
    using lo(2,3) by (intro stable_insert) auto
  then have "stable_for (score g) (rev l') (stored @ [x])"
    by (simp add: lo(1))
  moreover have "\<forall>y \<in> set l'. \<exists>v. g y = Inr v"
    using ls v lo(1) by (auto dest: in_set_takeD in_set_dropD)
  ultimately show ?thesis by (simp add: queue_inv_def)
qed

lemma queue_inv_pop:
  assumes "queue_inv g l stored"
  shows "if l = [] then stored = [] \<and> first_min g stored = None
         else first_min g stored = Some (last l) \<and>
              queue_inv g (butlast l) (remove1 (last l) stored)"
proof (cases "l = []")
  case True
  then have "stored = []"
    using assms stable_length_eq[of "score g" "rev l" stored] by (simp add: queue_inv_def)
  with True show ?thesis by (simp add: first_min_def)
next
  case False
  then have rl: "rev l = last l # rev (butlast l)"
    by (metis append_butlast_last_id rev.simps(2) rev_append rev_rev_ident append_Nil
        rev_singleton_conv append_Cons)
  have s: "stable_for (score g) (last l # rev (butlast l)) stored"
    using assms rl by (simp add: queue_inv_def)
  have "first_min g stored = Some (last l)"
    unfolding first_min_def by (rule stable_hd[OF s])
  moreover have "stable_for (score g) (rev (butlast l)) (remove1 (last l) stored)"
    by (rule stable_tl[OF s])
  moreover have "\<forall>y \<in> set (butlast l). \<exists>v. g y = Inr v"
    using assms by (auto simp: queue_inv_def dest: in_set_butlastD)
  ultimately show ?thesis using False by (simp add: queue_inv_def)
qed

lemma queue_inv_cong:
  assumes "queue_inv g l stored" "\<forall>x \<in> set l. g' x = g x"
  shows "queue_inv g' l stored"
proof -
  have st: "stable_for (score g) (rev l) stored" using assms(1) by (simp add: queue_inv_def)
  have sets: "set stored = set l" using stable_set_eq[OF st] by simp
  have sc: "\<forall>x \<in> set l. score g' x = score g x"
    using assms(2) by (simp add: score_def)
  have m: "map (score g') (rev l) = map (score g) (rev l)"
    using sc by simp
  have f1: "filter (\<lambda>y. score g' y = k) (rev l) = filter (\<lambda>y. score g y = k) (rev l)" for k
    using sc by (intro filter_cong) auto
  have f2: "filter (\<lambda>y. score g' y = k) stored = filter (\<lambda>y. score g y = k) stored" for k
    using sc sets by (intro filter_cong) auto
  have "stable_for (score g') (rev l) stored"
    using st unfolding stable_for_def by (simp only: m f1 f2) simp
  moreover have "\<forall>y \<in> set l. \<exists>v. g' y = Inr v"
    using assms by (auto simp: queue_inv_def)
  ultimately show ?thesis by (simp add: queue_inv_def)
qed

lemma PriorityQueue_add_Inr:
  assumes "PriorityQueue_add f q st state goal = Inr (q', st')"
  shows "generate_heuristic_in st state goal = Inr st' \<and>
         insort_left (rq_sorted_list q) state (negated (f st')) = Inr (rq_sorted_list q')"
proof -
  from assms obtain st1 where s: "generate_heuristic_in st state goal = Inr st1"
    by (cases "generate_heuristic_in st state goal")
       (auto simp: PriorityQueue_add_def bind_err_def)
  with assms obtain l where
    l: "insort_left (rq_sorted_list q) state (negated (f st1)) = Inr l"
    by (cases "insort_left (rq_sorted_list q) state (negated (f st1))")
       (auto simp: PriorityQueue_add_def bind_err_def)
  from assms s l have "st' = st1" "rq_sorted_list q' = l"
    by (auto simp: PriorityQueue_add_def bind_err_def Let_def split: if_splits)
  with s l show ?thesis by simp
qed

lemma run_refs_refines:
  assumes "queue_inv (f st) (rq_sorted_list q) stored"
    "run_refs f q st ops = Inr res" "steady f q st ops"
  shows "map fst res = spec_outputs f st stored ops"
  using assms
proof (induction ops arbitrary: q st stored res)
  case Nil
  then show ?case by simp
next
  case (Cons opn ops)
  show ?case
  proof (cases opn)
    case (AddRef state goal)
    from Cons.prems(2) obtain q' st' rest where
      a: "PriorityQueue_add f q st state goal = Inr (q', st')"
      and rs: "run_refs f q' st' ops = Inr rest" and res: "res = (None, q', st') # rest"
      unfolding AddRef
      by (cases "PriorityQueue_add f q st state goal";
          cases "run_refs f (fst (projr (PriorityQueue_add f q st state goal)))
                   (snd (projr (PriorityQueue_add f q st state goal))) ops")
         (auto simp: bind_err_def split: prod.splits)
    note p = PriorityQueue_add_Inr[OF a]
    have same: "\<forall>x \<in> set (rq_sorted_list q). f st' x = f st x"
      and sd: "steady f q' st' ops"
      using Cons.prems(3) a by (simp_all add: AddRef list_all_iff)
    have "queue_inv (f st') (rq_sorted_list q) stored"
      by (rule queue_inv_cong[OF Cons.prems(1) same])
    then have "queue_inv (f st') (rq_sorted_list q') (stored @ [state])"
      by (rule queue_inv_insort[OF _ conjunct2[OF p]])
    from Cons.IH[OF this rs sd] p show ?thesis
      by (simp add: AddRef res)
  next
    case RemoveRef
    obtain r q' where rm: "PriorityQueue_remove q = (r, q')"
      by (cases "PriorityQueue_remove q")
    from Cons.prems(2) obtain rest where
      rs: "run_refs f q' st ops = Inr rest" and res: "res = (r, q', st) # rest"
      unfolding RemoveRef
      by (cases "run_refs f q' st ops") (auto simp: rm bind_err_def)
    have sd: "steady f q' st ops"
      using Cons.prems(3) by (simp add: RemoveRef rm)
    note pop = queue_inv_pop[OF Cons.prems(1)]
    show ?thesis
    proof (cases "rq_sorted_list q = []")
      case True
      then have rn: "r = None" and qq: "q' = q"
        using rm by (simp_all add: PriorityQueue_remove_def)
      have "queue_inv (f st) (rq_sorted_list q') stored"
        using Cons.prems(1) qq by simp
      moreover have "first_min (f st) stored = None"
        using pop True by (auto simp: first_min_def)
      ultimately show ?thesis
        using Cons.IH[OF _ rs sd, of stored] rn by (simp add: RemoveRef res)
    next
      case False
      then have r: "r = Some (last (rq_sorted_list q))"
        and l': "rq_sorted_list q' = butlast (rq_sorted_list q)"
        using rm by (auto simp: PriorityQueue_remove_def)
      have "queue_inv (f st) (rq_sorted_list q') (remove1 (last (rq_sorted_list q)) stored)"
        using pop False by (simp add: l')
      from Cons.IH[OF this rs sd] pop False show ?thesis
        by (simp add: RemoveRef res r)
    qed
  qed
qed

section \<open>The counters of a fringe\<close>

lemma length_insort_left: "insort_left a x key = Inr a' \<Longrightarrow> length a' = Suc (length a)"
  by (cases "key x"; cases "bisect_left a (projr (key x)) 0 (length a) key")
     (auto simp: insort_left_def bind_err_def list_insert_def)

lemma add_counters:
  assumes "add fr state goal = Inr fr'"
  shows "len fr' = Suc (len fr) \<and> num_created fr' = num_created fr + 1 \<and>
         max_fringe fr' = max (max_fringe fr) (int (len fr'))"
proof -
  from assms obtain s' c where c: "add_sub (contents fr) s' = Inr c"
    and fr': "fr' =
       (if int (len (fr\<lparr>contents := c, num_created := num_created fr + 1\<rparr>)) > max_fringe fr
        then fr\<lparr>contents := c, num_created := num_created fr + 1,
                 max_fringe := int (len (fr\<lparr>contents := c, num_created := num_created fr + 1\<rparr>))\<rparr>
        else fr\<lparr>contents := c, num_created := num_created fr + 1\<rparr>)"
    by (cases "if uses_heuristic fr then generate_heuristic state goal else Inr state";
        cases "add_sub (contents fr) (projr (if uses_heuristic fr then generate_heuristic state goal else Inr state))")
       (auto simp: add_def bind_err_def Let_def)
  have "len (fr\<lparr>contents := c, num_created := num_created fr + 1\<rparr>) = Suc (len fr)"
    using c
    by (cases "contents fr")
       (auto simp: add_sub_def len_def bind_err_def dest: length_insort_left split: sum.splits)
  then show ?thesis
    by (auto simp: fr' Let_def len_def)
qed

lemma remove_counters:
  assumes "remove fr = Inr (r, fr')"
  shows "len fr' = len fr - 1 \<and> num_created fr' = num_created fr \<and>
         max_fringe fr' = max_fringe fr"
proof (cases "len fr = 0")
  case True
  then show ?thesis using assms by (simp add: remove_def)
next
  case False
  then show ?thesis
    using assms
    by (cases "contents fr")
       (auto simp: remove_def remove_sub_def bind_err_def len_def split: list.splits if_splits)
qed

lemma run_ops_counters:
  assumes "run_ops fr ops = Inr res" "int (len fr) \<le> max_fringe fr"
  shows "num_created (fringe_after fr res) = num_created fr + int (count_adds ops) \<and>
         max_fringe (fringe_after fr res) = max (max_fringe fr) (Max (set (sizes fr res))) \<and>
         length res = length ops"
  using assms
proof (induction ops arbitrary: fr res)
  case Nil
  then show ?case by (simp add: fringe_after_def sizes_def)
next
  case (Cons opn ops)
  from Cons.prems(1) obtain r fr' rest where
    st: "apply_op fr opn = Inr (r, fr')" and rs: "run_ops fr' ops = Inr rest"
    and res: "res = (r, fr') # rest"
    by (cases "apply_op fr opn"; cases "run_ops (snd (projr (apply_op fr opn))) ops")
       (auto simp: bind_err_def split: prod.splits)
  have after: "fringe_after fr ((r, fr') # rest) = fringe_after fr' rest"
    by (simp add: fringe_after_def)
  have sz: "Max (set (sizes fr ((r, fr') # rest)))
      = max (int (len fr)) (Max (set (sizes fr' rest)))"
    by (simp add: sizes_def)
  show ?case
  proof (cases opn)
    case (Add state goal)
    with st have a: "add fr state goal = Inr fr'"
      by (cases "add fr state goal") (auto simp: bind_err_def)
    note c = add_counters[OF a]
    have le: "int (len fr') \<le> max_fringe fr'" using c by simp
    have big: "int (len fr') \<le> Max (set (sizes fr' rest))"
      by (simp add: sizes_def)
    from Cons.IH[OF rs le] c Cons.prems(2) big show ?thesis
      by (simp add: after sz Add res)
  next
    case Remove
    with st have a: "remove fr = Inr (r, fr')" by simp
    note c = remove_counters[OF a]
    have le: "int (len fr') \<le> max_fringe fr'" using c Cons.prems(2) by simp
    from Cons.IH[OF rs le] c Cons.prems(2) show ?thesis
      by (simp add: after sz Remove res)
  qed
qed

lemma run_ops_take:
  "run_ops fr ops = Inr res \<Longrightarrow> run_ops fr (take k ops) = Inr (take k res)"
proof (induction ops arbitrary: fr res k)
  case Nil
  then show ?case by simp
next
  case (Cons opn ops)
  from Cons.prems obtain r fr' rest where
    st: "apply_op fr opn = Inr (r, fr')" and rs: "run_ops fr' ops = Inr rest"
    and res: "res = (r, fr') # rest"
    by (cases "apply_op fr opn"; cases "run_ops (snd (projr (apply_op fr opn))) ops")
       (auto simp: bind_err_def split: prod.splits)
  show ?case
  proof (cases k)
    case 0
    then show ?thesis by simp
  next
    case (Suc j)
    with Cons.IH[OF rs, of j] st res show ?thesis by (simp add: bind_err_def)
  qed
qed

section \<open>The search driver returns\<close>

lemma bisect_left_total:
  assumes "\<forall>y \<in> set a. \<exists>v. key y = Inr v" "hi \<le> length a"
  shows "\<exists>r. bisect_left a x lo hi key = Inr r"
  using assms
proof (induction a x lo hi key rule: bisect_left.induct)
  case (1 a x lo hi key)
  show ?case
  proof (cases "lo < hi")
    case False
    then show ?thesis by (simp add: bisect_left.simps)
  next
    case True
    define mid where "mid = (lo + hi) div 2"
    have m: "mid < hi" "mid < length a" using True "1.prems"(2) by (auto simp: mid_def)
    have g: "py_get a (int mid) = Inr (a ! mid)" using m by (simp add: py_get_def)
    have "a ! mid \<in> set a" using m by simp
    with "1.prems"(1) obtain v where k: "key (a ! mid) = Inr v" by blast
    show ?thesis
    proof (cases "v < x")
      case lt: True
      have step: "bisect_left a x lo hi key = bisect_left a x (mid + 1) hi key"
        using True lt g k
        by (subst bisect_left.simps) (simp add: Let_def bind_err_def mid_def[symmetric])
      from "1.IH"(1)[OF True mid_def lt "1.prems"] show ?thesis by (simp only: step)
    next
      case ge: False
      have step: "bisect_left a x lo hi key = bisect_left a x lo mid key"
        using True ge g k
        by (subst bisect_left.simps) (simp add: Let_def bind_err_def mid_def[symmetric])
      have "mid \<le> length a" using m by simp
      from "1.IH"(2)[OF True mid_def ge "1.prems"(1) this] show ?thesis by (simp only: step)
    qed
  qed
qed

lemma set_list_insert: "set (list_insert a r x) = insert x (set a)"
proof -
  have "set (take r a @ drop r a) = set a" by simp
  then have "set (take r a) \<union> set (drop r a) = set a" by (simp only: set_append)
  then show ?thesis unfolding list_insert_def by (simp only: set_append list.set) blast
qed

lemma insort_left_total:
  assumes "\<forall>y \<in> set a. \<exists>v. key y = Inr v" "key x = Inr kx"
  shows "\<exists>a'. insort_left a x key = Inr a' \<and> set a' = insert x (set a) \<and>
           length a' = Suc (length a)"
proof -
  from bisect_left_total[OF assms(1), of "length a" kx 0] obtain r where
    r: "bisect_left a kx 0 (length a) key = Inr r" by auto
  have i: "insort_left a x key = Inr (list_insert a r x)"
    using r assms(2) by (simp add: insort_left_def bind_err_def)
  show ?thesis
    using i set_list_insert[of a r x] length_insort_left[OF i] by simp
qed

lemma generate_heuristic_ok:
  assumes "board_n nd \<noteq> 0" "set (tiles nd) - {blank} \<subseteq> set (tiles goal)"
  shows "\<exists>h. generate_heuristic nd goal = Inr (set_heuristic nd (Some h))"
  by (simp only: generate_heuristic_def manhattan_distance_def manhattan_loop_sum[OF assms]
      bind_err_def sum.case) blast

lemma add_Inr:
  assumes "(if uses_heuristic fr then generate_heuristic nd goal else Inr nd) = Inr nd'"
    and "add_sub (contents fr) nd' = Inr c"
  shows "\<exists>fr'. add fr nd goal = Inr fr' \<and> contents fr' = c \<and>
           uses_heuristic fr' = uses_heuristic fr"
  using assms by (simp add: add_def bind_err_def Let_def)

lemma valid_set_heuristic: "valid (set_heuristic nd h) = valid nd"
  by (simp add: valid_def set_heuristic_def)

lemma add_inv:
  assumes "fringe_inv M goal fr" "valid nd" "mset (tiles nd) = M"
  shows "\<exists>fr'. add fr nd goal = Inr fr' \<and> fringe_inv M goal fr' \<and> len fr' = Suc (len fr)"
proof (cases "contents fr")
  case (Queue d)
  then have u: "\<not> uses_heuristic fr" using assms(1) by (simp add: fringe_inv_def)
  have "add_sub (contents fr) nd = Inr (Queue (d @ [nd]))" by (simp add: add_sub_def Queue)
  with add_Inr[of fr nd goal nd] u obtain fr' where
    fr': "add fr nd goal = Inr fr'" "contents fr' = Queue (d @ [nd])" "\<not> uses_heuristic fr'"
    by auto
  have "fringe_inv M goal fr'"
    using assms fr'(2,3) Queue by (auto simp: fringe_inv_def entries_def)
  with fr'(1) add_counters[OF fr'(1)] show ?thesis by simp
next
  case (Stack d)
  then have u: "\<not> uses_heuristic fr" using assms(1) by (simp add: fringe_inv_def)
  have "add_sub (contents fr) nd = Inr (Stack (d @ [nd]))" by (simp add: add_sub_def Stack)
  with add_Inr[of fr nd goal nd] u obtain fr' where
    fr': "add fr nd goal = Inr fr'" "contents fr' = Stack (d @ [nd])" "\<not> uses_heuristic fr'"
    by auto
  have "fringe_inv M goal fr'"
    using assms fr'(2,3) Stack by (auto simp: fringe_inv_def entries_def)
  with fr'(1) add_counters[OF fr'(1)] show ?thesis by simp
next
  case (PriorityQueue l key)
  then have u: "uses_heuristic fr" and sub: "set_mset M - {blank} \<subseteq> set (tiles goal)"
    and hs: "\<forall>x \<in> set l. heuristic x \<noteq> None"
    and ks: "\<forall>x. heuristic x \<noteq> None \<longrightarrow> (\<exists>v. key x = Inr v)"
    and es: "\<forall>x \<in> set l. valid x \<and> mset (tiles x) = M"
    using assms(1) by (simp_all add: fringe_inv_def entries_def)
  have n: "board_n nd \<noteq> 0" using assms(2) by (simp add: valid_def)
  have "set (tiles nd) = set_mset M" using assms(3) by auto
  with sub have s: "set (tiles nd) - {blank} \<subseteq> set (tiles goal)" by simp
  from generate_heuristic_ok[OF n s] obtain h where
    h: "generate_heuristic nd goal = Inr (set_heuristic nd (Some h))" by blast
  define nd' where "nd' = set_heuristic nd (Some h)"
  have nd': "valid nd'" "mset (tiles nd') = M" "heuristic nd' \<noteq> None"
    using assms(2,3) by (simp_all add: nd'_def valid_set_heuristic) (simp_all add: set_heuristic_def)
  from ks nd'(3) obtain kx where kx: "key nd' = Inr kx" by blast
  have "\<forall>y \<in> set l. \<exists>v. key y = Inr v" using hs ks by blast
  from insort_left_total[OF this kx] obtain l' where
    l': "insort_left l nd' key = Inr l'" "set l' = insert nd' (set l)" by blast
  have "add_sub (contents fr) nd' = Inr (contents.PriorityQueue l' key)"
    using l'(1) by (simp add: add_sub_def PriorityQueue bind_err_def)
  with add_Inr[of fr nd goal nd'] u h obtain fr' where
    fr': "add fr nd goal = Inr fr'" "contents fr' = contents.PriorityQueue l' key" "uses_heuristic fr'"
    by (auto simp: nd'_def)
  have "fringe_inv M goal fr'"
    using fr'(2,3) l'(2) nd' sub hs ks es by (auto simp: fringe_inv_def entries_def)
  with fr'(1) add_counters[OF fr'(1)] show ?thesis by simp
qed

lemma remove_inv:
  assumes "fringe_inv M goal fr" "len fr \<noteq> 0"
  shows "\<exists>node fr'. remove fr = Inr (Some node, fr') \<and> fringe_inv M goal fr' \<and>
           valid node \<and> mset (tiles node) = M \<and> Suc (len fr') = len fr"
proof (cases "contents fr")
  case (Queue d)
  with assms(2) obtain x r where d: "d = x # r" by (cases d) (auto simp: len_def)
  have "remove fr = Inr (Some x, fr\<lparr>contents := Queue r\<rparr>)"
    using assms(2) by (simp add: remove_def remove_sub_def Queue d bind_err_def)
  moreover have "fringe_inv M goal (fr\<lparr>contents := Queue r\<rparr>)" "valid x" "mset (tiles x) = M"
    using assms(1) Queue d by (auto simp: fringe_inv_def entries_def)
  moreover have "Suc (len (fr\<lparr>contents := Queue r\<rparr>)) = len fr"
    by (simp add: len_def Queue d)
  ultimately show ?thesis by blast
next
  case (Stack d)
  with assms(2) have ne: "d \<noteq> []" by (auto simp: len_def)
  have "remove fr = Inr (Some (last d), fr\<lparr>contents := Stack (butlast d)\<rparr>)"
    using assms(2) ne by (simp add: remove_def remove_sub_def Stack bind_err_def)
  moreover have "fringe_inv M goal (fr\<lparr>contents := Stack (butlast d)\<rparr>)"
    "valid (last d)" "mset (tiles (last d)) = M"
    using assms(1) Stack ne by (auto simp: fringe_inv_def entries_def dest: in_set_butlastD)
  moreover have "Suc (len (fr\<lparr>contents := Stack (butlast d)\<rparr>)) = len fr"
    using ne by (simp add: len_def Stack)
  ultimately show ?thesis by blast
next
  case (PriorityQueue d key)
  with assms(2) have ne: "d \<noteq> []" by (auto simp: len_def)
  have "remove fr = Inr (Some (last d), fr\<lparr>contents := contents.PriorityQueue (butlast d) key\<rparr>)"
    using assms(2) ne by (simp add: remove_def remove_sub_def PriorityQueue bind_err_def)
  moreover have "fringe_inv M goal (fr\<lparr>contents := contents.PriorityQueue (butlast d) key\<rparr>)"
    "valid (last d)" "mset (tiles (last d)) = M"
    using assms(1) PriorityQueue ne
    by (auto simp: fringe_inv_def entries_def dest: in_set_butlastD)
  moreover have "Suc (len (fr\<lparr>contents := contents.PriorityQueue (butlast d) key\<rparr>)) = len fr"
    using ne by (simp add: len_def PriorityQueue)
  ultimately show ?thesis by blast
qed

lemma move_total:
  assumes "valid s"
  shows "move d s = Inr None \<or>
         (\<exists>s'. move d s = Inr (Some s') \<and> valid s' \<and> mset (tiles s') = mset (tiles s))"
proof (cases "on_edge d s")
  case True
  then show ?thesis using move_on_edge[OF assms] by simp
next
  case False
  note t = target_in_range[OF assms False]
  have i: "nat (space_ind s) < length (tiles s)" "nat (space_ind s + offset d s) < length (tiles s)"
    using assms t by (auto simp: valid_def)
  show ?thesis
    using move_off_edge[OF assms False] valid_successor[OF assms False] mset_swapped[OF i]
    by simp
qed

lemma try_add_inv:
  assumes "fringe_inv M goal fr"
    and "nd = None \<or> (\<exists>x. nd = Some x \<and> valid x \<and> mset (tiles x) = M)"
  shows "\<exists>fr'. try_add fr ex goal nd = Inr fr' \<and> fringe_inv M goal fr'"
proof (cases nd)
  case None
  then show ?thesis using assms(1) by (simp add: try_add_def)
next
  case (Some x)
  with assms(2) have x: "valid x" "mset (tiles x) = M" by auto
  show ?thesis
  proof (cases "member_expanded x ex")
    case True
    then show ?thesis using assms(1) Some by (simp add: try_add_def)
  next
    case False
    from add_inv[OF assms(1) x] obtain fr' where
      "add fr x goal = Inr fr'" "fringe_inv M goal fr'" by blast
    then show ?thesis using False Some by (simp add: try_add_def)
  qed
qed

lemma move_try_add:
  assumes "fringe_inv M goal fr" "valid node" "mset (tiles node) = M"
  shows "\<exists>r fr'. move d node = Inr r \<and> try_add fr ex goal r = Inr fr' \<and> fringe_inv M goal fr'"
proof -
  from move_total[OF assms(2), of d] obtain r where
    r: "move d node = Inr r" "r = None \<or> (\<exists>x. r = Some x \<and> valid x \<and> mset (tiles x) = M)"
    using assms(3) by auto
  from try_add_inv[OF assms(1) r(2), of ex] r(1) show ?thesis by blast
qed

lemma expand_inv:
  assumes "fringe_inv M goal fr" "valid node" "mset (tiles node) = M"
  shows "\<exists>fr'. expand fr ex goal node = Inr fr' \<and> fringe_inv M goal fr'"
proof -
  from move_try_add[OF assms, of Up ex] obtain r1 f1 where
    1: "space_up node = Inr r1" "try_add fr ex goal r1 = Inr f1" "fringe_inv M goal f1"
    by auto
  from move_try_add[OF 1(3) assms(2,3), of Down ex] obtain r2 f2 where
    2: "space_down node = Inr r2" "try_add f1 ex goal r2 = Inr f2" "fringe_inv M goal f2"
    by auto
  from move_try_add[OF 2(3) assms(2,3), of Left ex] obtain r3 f3 where
    3: "space_left node = Inr r3" "try_add f2 ex goal r3 = Inr f3" "fringe_inv M goal f3"
    by auto
  from move_try_add[OF 3(3) assms(2,3), of Right ex] obtain r4 f4 where
    4: "space_right node = Inr r4" "try_add f3 ex goal r4 = Inr f4" "fringe_inv M goal f4"
    by auto
  show ?thesis
    using 1 2 3 4 by (simp add: expand_def bind_err_def)
qed

lemma member_expanded_tiles:
  "member_expanded node ex = (tiles node \<in> set (map tiles ex))"
  by (auto simp: member_expanded_def list_ex_iff board_eq_def image_iff) metis

lemma loop_body_step:
  assumes "fringe_inv M goal fr" "expanded_inv M ex" "len fr \<noteq> 0"
  shows "(\<exists>node c e m. loop_body goal fr ex = Return (Some node, depth node, c, e, m) \<and>
            board_eq node goal)
       \<or> (\<exists>fr' ex'. loop_body goal fr ex = Continue fr' ex' \<and>
            fringe_inv M goal fr' \<and> expanded_inv M ex' \<and>
            ((ex' = ex \<and> len fr' < len fr) \<or> length ex' = Suc (length ex)))"
proof -
  from remove_inv[OF assms(1,3)] obtain node fr1 where
    r: "remove fr = Inr (Some node, fr1)" "fringe_inv M goal fr1" "valid node"
       "mset (tiles node) = M" "Suc (len fr1) = len fr"
    by blast
  show ?thesis
  proof (cases "member_expanded node ex")
    case True
    then have "loop_body goal fr ex = Continue fr1 ex"
      using r(1) by (simp add: loop_body_def)
    then show ?thesis using r(2,5) assms(2) by auto
  next
    case False
    show ?thesis
    proof (cases "board_eq node goal")
      case True
      then show ?thesis using r(1) False by (simp add: loop_body_def)
    next
      case ne: False
      let ?ex1 = "expanded_add ex node"
      have ex1: "?ex1 = ex @ [node]" using False by (simp add: expanded_add_def)
      from expand_inv[OF r(2,3,4), of ?ex1] obtain fr2 where
        e: "expand fr1 ?ex1 goal node = Inr fr2" "fringe_inv M goal fr2" by blast
      have "loop_body goal fr ex = Continue fr2 ?ex1"
        using r(1) False ne e(1) by (simp add: loop_body_def Let_def)
      moreover have "expanded_inv M ?ex1"
        using assms(2) r(4) False
        by (auto simp: expanded_inv_def ex1 member_expanded_tiles)
      ultimately show ?thesis using e(2) by (simp add: ex1)
    qed
  qed
qed

lemma finite_arrangements: "finite {ts. mset ts = M}"
  by (metis mset_eq_finite ex_mset)

lemma expanded_bound:
  assumes "expanded_inv M ex"
  shows "length ex \<le> card {ts. mset ts = M}"
proof -
  have "set (map tiles ex) \<subseteq> {ts. mset ts = M}"
    using assms by (auto simp: expanded_inv_def)
  then have "card (set (map tiles ex)) \<le> card {ts. mset ts = M}"
    by (rule card_mono[OF finite_arrangements])
  moreover have "card (set (map tiles ex)) = length ex"
    using assms distinct_card[of "map tiles ex"] by (simp add: expanded_inv_def)
  ultimately show ?thesis by simp
qed

lemma graph_loop_returns:
  assumes "fringe_inv M goal fr" "expanded_inv M ex"
  shows "\<exists>r. graph_loop goal fr ex = Some (Inr r) \<and> search_ok goal r"
proof -
  define R where "R = measures
    [\<lambda>p :: Fringe \<times> SlideBoard list. card {ts. mset ts = M} - length (snd p),
     \<lambda>p. len (fst p)]"
  have wfR: "wf R" by (simp add: R_def)
  have "fringe_inv M goal (fst p) \<longrightarrow> expanded_inv M (snd p) \<longrightarrow>
    (\<exists>r. graph_loop goal (fst p) (snd p) = Some (Inr r) \<and> search_ok goal r)" for p
  proof (rule wf_induct[OF wfR, of _ p], intro impI)
    fix p
    assume IH: "\<forall>q. (q, p) \<in> R \<longrightarrow> fringe_inv M goal (fst q) \<longrightarrow> expanded_inv M (snd q) \<longrightarrow>
      (\<exists>r. graph_loop goal (fst q) (snd q) = Some (Inr r) \<and> search_ok goal r)"
    assume prems: "fringe_inv M goal (fst p)" "expanded_inv M (snd p)"
    obtain fr ex where p: "p = (fr, ex)" by (cases p)
    have inv: "fringe_inv M goal fr" "expanded_inv M ex" using prems by (simp_all add: p)
    have "\<exists>r. graph_loop goal fr ex = Some (Inr r) \<and> search_ok goal r"
    proof (cases "len fr = 0")
      case True
      then show ?thesis
        by (subst graph_loop.simps) (simp add: search_ok_def)
    next
      case False
      from loop_body_step[OF inv False] consider
        (found) node c e m where
          "loop_body goal fr ex = Return (Some node, depth node, c, e, m)" "board_eq node goal"
      | (continue) fr' ex' where "loop_body goal fr ex = Continue fr' ex'"
          "fringe_inv M goal fr'" "expanded_inv M ex'"
          "(ex' = ex \<and> len fr' < len fr) \<or> length ex' = Suc (length ex)"
        by blast
      then show ?thesis
      proof cases
        case found
        then show ?thesis
          using False by (subst graph_loop.simps) (simp add: search_ok_def)
      next
        case continue
        have "((fr', ex'), p) \<in> R"
          using continue(4) expanded_bound[OF continue(3)] expanded_bound[OF inv(2)]
          by (auto simp: R_def p)
        with IH[rule_format, of "(fr', ex')"] continue(2,3) obtain r where
          "graph_loop goal fr' ex' = Some (Inr r)" "search_ok goal r"
          by (simp only: fst_conv snd_conv) blast
        then show ?thesis
          using False continue(1) by (subst graph_loop.simps) simp
      qed
    qed
    then show "\<exists>r. graph_loop goal (fst p) (snd p) = Some (Inr r) \<and> search_ok goal r"
      by (simp add: p)
  qed
  from this[of "(fr, ex)"] assms show ?thesis by simp
qed

lemma fringe_inv_init:
  "fringe_inv M goal Queue_init" "fringe_inv M goal Stack_init"
  "set_mset M - {blank} \<subseteq> set (tiles goal) \<Longrightarrow> fringe_inv M goal (PriorityQueue_init f_GBFS)"
  "set_mset M - {blank} \<subseteq> set (tiles goal) \<Longrightarrow> fringe_inv M goal (PriorityQueue_init f_AStar)"
  by (auto simp: fringe_inv_def entries_def Queue_init_def Stack_init_def PriorityQueue_init_def
      Fringe_init_def negated_def f_GBFS_def f_AStar_def bind_err_def)

lemma graph_search_returns:
  assumes "valid start" "fringe_inv (mset (tiles start)) goal fr"
  shows "\<exists>r. graph_search start goal fr = Some (Inr r) \<and> search_ok goal r"
proof -
  from add_inv[OF assms(2,1) refl] obtain fr' where
    fr': "add fr start goal = Inr fr'" "fringe_inv (mset (tiles start)) goal fr'" by blast
  have "expanded_inv (mset (tiles start)) []" by (simp add: expanded_inv_def)
  from graph_loop_returns[OF fr'(2) this] fr'(1) show ?thesis
    by (simp add: graph_search_def)
qed

section \<open>A start state equal to the goal\<close>

lemma manhattan_distance_self:
  assumes "valid s" "tiles g = tiles s"
  shows "manhattan_distance s g = Inr 0"
proof -
  have n: "board_n s \<noteq> 0" and d: "distinct (tiles s)"
    using assms(1) by (simp_all add: valid_def)
  have sub: "set (tiles s) - {blank} \<subseteq> set (tiles g)" using assms(2) by auto
  have "(\<Sum>k<length (tiles s).
        if tiles s ! k = blank then 0
        else \<bar>position (tiles g) (tiles s ! k) div board_n s - (0 + int k) div board_n s\<bar>
           + \<bar>position (tiles g) (tiles s ! k) mod board_n s - (0 + int k) mod board_n s\<bar>) = 0"
    using d by (intro sum.neutral) (simp add: assms(2) position_nth)
  then show ?thesis
    unfolding manhattan_distance_def manhattan_loop_sum[OF n sub] by simp
qed

lemma bisect_left_empty: "bisect_left [] x 0 0 key = Inr 0"
  by (subst bisect_left.simps) simp

lemma search_at_goal:
  assumes "valid start" "tiles start = tiles goal"
  shows "BFS start goal = Some (Inr (Some start, depth start, 0, 0, 1))"
    and "DFS start goal = Some (Inr (Some start, depth start, 0, 0, 1))"
    and "GBFS start goal =
           Some (Inr (Some (set_heuristic start (Some 0)), depth start, 0, 0, 1))"
    and "AStar start goal =
           Some (Inr (Some (set_heuristic start (Some 0)), depth start, 0, 0, 1))"
proof -
  have e: "board_eq start goal" "board_eq (set_heuristic start (Some 0)) goal"
    using assms(2) by (simp_all add: board_eq_def set_heuristic_def)
  show "BFS start goal = Some (Inr (Some start, depth start, 0, 0, 1))"
    using e
    by (subst BFS_def, simp add: graph_search_def add_def Queue_init_def Fringe_init_def
        bind_err_def add_sub_def len_def Let_def,
        subst graph_loop.simps,
        simp add: len_def loop_body_def remove_def remove_sub_def bind_err_def
          member_expanded_def)
  show "DFS start goal = Some (Inr (Some start, depth start, 0, 0, 1))"
    using e
    by (subst DFS_def, simp add: graph_search_def add_def Stack_init_def Fringe_init_def
        bind_err_def add_sub_def len_def Let_def,
        subst graph_loop.simps,
        simp add: len_def loop_body_def remove_def remove_sub_def bind_err_def
          member_expanded_def)
  have h: "generate_heuristic start goal = Inr (set_heuristic start (Some 0))"
    using manhattan_distance_self[OF assms(1) assms(2)[symmetric]]
    by (simp add: generate_heuristic_def bind_err_def)
  show "GBFS start goal =
           Some (Inr (Some (set_heuristic start (Some 0)), depth start, 0, 0, 1))"
    using e h
    by (subst GBFS_def, simp add: graph_search_def add_def PriorityQueue_init_def
        Fringe_init_def bind_err_def add_sub_def len_def Let_def insort_left_def negated_def
        f_GBFS_def set_heuristic_def bisect_left_empty list_insert_def,
        subst graph_loop.simps,
        simp add: len_def loop_body_def remove_def remove_sub_def bind_err_def
          member_expanded_def set_heuristic_def)
  show "AStar start goal =
           Some (Inr (Some (set_heuristic start (Some 0)), depth start, 0, 0, 1))"
    using e h
    by (subst AStar_def, simp add: graph_search_def add_def PriorityQueue_init_def
        Fringe_init_def bind_err_def add_sub_def len_def Let_def insort_left_def negated_def
        f_AStar_def set_heuristic_def bisect_left_empty list_insert_def,
        subst graph_loop.simps,
        simp add: len_def loop_body_def remove_def remove_sub_def bind_err_def
          member_expanded_def set_heuristic_def)
qed

section \<open>Claims about boards\<close>

text \<open>
  Claim C3. \<open>create\<close> raises \<open>BadBoard\<close> if and only if \<open>n \<le> 0\<close>, or the length of the
  string is not \<open>n\<^sup>2\<close>, or the string has no blank, or a symbol occurs twice.  For every
  other input it returns a board whose tiles are the input string, with depth 0 and no
  parent.
\<close>

theorem create_validation:
  "((\<exists>msg. create str_rep n = Inl (BadBoard msg)) \<longleftrightarrow>
      (n \<le> 0 \<or> int (length str_rep) \<noteq> n * n \<or> blank \<notin> set str_rep \<or> \<not> distinct str_rep))
   \<and> (\<not> (n \<le> 0 \<or> int (length str_rep) \<noteq> n * n \<or> blank \<notin> set str_rep \<or> \<not> distinct str_rep)
        \<longrightarrow> (\<exists>s. create str_rep n = Inr s \<and> tiles s = str_rep \<and> depth s = 0 \<and>
                  parent s = None))"
proof (cases "n \<le> 0 \<or> int (length str_rep) \<noteq> n * n \<or> blank \<notin> set str_rep \<or> \<not> distinct str_rep")
  case True
  then have "\<exists>msg. create str_rep n = Inl (BadBoard msg)"
    by (auto simp: create_def remdups_length_distinct)
  with True show ?thesis by simp
next
  case False
  then have c: "0 < n" "int (length str_rep) = n * n" "blank \<in> set str_rep" "distinct str_rep"
    by auto
  from create_ok[OF c] obtain i where
    "create str_rep n = Inr (SlideBoard str_rep n (int i) None 0 None)" by blast
  with False show ?thesis by simp
qed

theorem create_validation_witness:
  "(\<exists>s. create ''21 3'' 2 = Inr s \<and> tiles s = ''21 3'' \<and> depth s = 0 \<and> parent s = None)
   \<and> (\<exists>msg. create ''2133'' 2 = Inl (BadBoard msg))
   \<and> (\<exists>msg. create ''21 3'' 0 = Inl (BadBoard msg))"
  using create_validation[of "''21 3''" 2] create_validation[of "''2133''" 2]
    create_validation[of "''21 3''" 0]
  by (simp add: blank_def)

text \<open>
  Claim C7. Two boards compare equal if and only if their tiles are equal, whatever their
  depth, parent and heuristic are, and boards with equal tiles have equal hash values.
\<close>

theorem equality_by_tiles:
  "(board_eq a b \<longleftrightarrow> tiles a = tiles b)
   \<and> board_eq (SlideBoard ts n1 sp1 h1 d1 p1) (SlideBoard ts n2 sp2 h2 d2 p2)
   \<and> (tiles a = tiles b \<longrightarrow> board_hash H a = board_hash H b)"
  by (simp add: board_eq_def board_hash_def)

theorem equality_by_tiles_witness:
  "board_eq (SlideBoard ''213 '' 2 3 None 0 None)
     (SlideBoard ''213 '' 2 3 (Some 0) 1 (Some (SlideBoard ''21 3'' 2 2 (Some 1) 0 None)))
   \<and> (\<forall>H. board_hash H (SlideBoard ''213 '' 2 3 None 0 None) =
        board_hash H
          (SlideBoard ''213 '' 2 3 (Some 0) 1 (Some (SlideBoard ''21 3'' 2 2 (Some 1) 0 None))))
   \<and> \<not> board_eq (SlideBoard ''213 '' 2 3 None 0 None) (SlideBoard ''21 3'' 2 2 None 0 None)"
proof (intro conjI allI)
  fix H
  let ?a = "SlideBoard ''213 '' 2 3 None 0 None"
  let ?b = "SlideBoard ''213 '' 2 3 (Some 0) 1 (Some (SlideBoard ''21 3'' 2 2 (Some 1) 0 None))"
  show "board_eq ?a ?b" using equality_by_tiles[where a = ?a and b = ?b] by simp
  show "board_hash H ?a = board_hash H ?b" using equality_by_tiles[where a = ?a and b = ?b and H = H] by simp
  show "\<not> board_eq ?a (SlideBoard ''21 3'' 2 2 None 0 None)"
    using equality_by_tiles[where a = ?a and b = "SlideBoard ''21 3'' 2 2 None 0 None"] by simp
qed

text \<open>
  Claim C2. On a valid state a move in any direction returns \<open>None\<close> exactly when the blank
  is on the edge the move would cross.  Otherwise it returns a state whose tiles are the
  receiver's with the blank and the target symbol exchanged, so with the same multiset of
  symbols, whose blank index is the receiver's plus the offset of the direction, whose
  depth is one more, and whose parent is the receiver.
\<close>

theorem move_legality:
  assumes "valid s"
  shows "if on_edge d s then move d s = Inr None
         else (\<exists>s'. move d s = Inr (Some s') \<and>
                 tiles s' = swapped (tiles s) (nat (space_ind s)) (nat (space_ind s + offset d s)) \<and>
                 tiles s ! nat (space_ind s) = blank \<and>
                 mset (tiles s') = mset (tiles s) \<and>
                 space_ind s' = space_ind s + offset d s \<and>
                 depth s' = depth s + 1 \<and>
                 parent s' = Some s)"
proof (cases "on_edge d s")
  case True
  then show ?thesis using move_on_edge[OF assms] by simp
next
  case False
  note t = target_in_range[OF assms False]
  have i: "nat (space_ind s) < length (tiles s)" "nat (space_ind s + offset d s) < length (tiles s)"
    using assms t by (auto simp: valid_def)
  show ?thesis
    using False move_off_edge[OF assms False] mset_swapped[OF i] assms
    by (simp add: valid_def)
qed

theorem move_legality_witness:
  "valid (SlideBoard ''21 3'' 2 2 None 0 None)
   \<and> move Down (SlideBoard ''21 3'' 2 2 None 0 None) = Inr None
   \<and> move Left (SlideBoard ''21 3'' 2 2 None 0 None) = Inr None
   \<and> (\<exists>s'. move Right (SlideBoard ''21 3'' 2 2 None 0 None) = Inr (Some s') \<and>
         tiles s' = ''213 '' \<and> space_ind s' = 3 \<and> depth s' = 1 \<and>
         parent s' = Some (SlideBoard ''21 3'' 2 2 None 0 None))
   \<and> (\<exists>s'. move Up (SlideBoard ''21 3'' 2 2 None 0 None) = Inr (Some s') \<and>
         tiles s' = '' 123'' \<and> space_ind s' = 0 \<and> depth s' = 1 \<and>
         parent s' = Some (SlideBoard ''21 3'' 2 2 None 0 None))"
proof -
  let ?s = "SlideBoard ''21 3'' 2 2 None 0 None"
  have v: "valid ?s" by (simp add: valid_def blank_def)
  show ?thesis
    using v move_legality[OF v, of Down] move_legality[OF v, of Left]
      move_legality[OF v, of Right] move_legality[OF v, of Up]
    by (auto simp: swapped_def)
qed

text \<open>
  Claim C10. When a move succeeds on a valid state, the opposite move succeeds on the
  result and gives back the tiles of the state, at a depth larger by two.
\<close>

theorem move_round_trip:
  assumes "valid s" "move d s = Inr (Some s')"
  shows "\<exists>s''. move (opposite d) s' = Inr (Some s'') \<and> tiles s'' = tiles s \<and>
           depth s'' = depth s + 2"
proof -
  have off: "\<not> on_edge d s"
    using move_on_edge[OF assms(1), of d] assms(2) by auto
  note t = target_in_range[OF assms(1) off]
  have i: "nat (space_ind s) < length (tiles s)" "nat (space_ind s + offset d s) < length (tiles s)"
    using assms(1) t by (auto simp: valid_def)
  define ts where "ts = swapped (tiles s) (nat (space_ind s)) (nat (space_ind s + offset d s))"
  have s': "s' = SlideBoard ts (board_n s) (space_ind s + offset d s) None (depth s + 1) (Some s)"
    using move_off_edge[OF assms(1) off] assms(2) by (simp add: ts_def)
  have v: "valid s'"
    using valid_successor[OF assms(1) off] by (simp add: s' ts_def)
  have o: "\<not> on_edge (opposite d) s'"
    unfolding s' by (rule opposite_off_edge[OF assms(1) off])
  have "offset (opposite d) s' = - offset d s"
    unfolding s' by (rule offset_opposite)
  with move_off_edge[OF v o] have
    "move (opposite d) s' = Inr (Some (SlideBoard
        (swapped ts (nat (space_ind s + offset d s)) (nat (space_ind s)))
        (board_n s) (space_ind s) None (depth s + 2) (Some s')))"
    by (simp add: s')
  moreover have "swapped ts (nat (space_ind s + offset d s)) (nat (space_ind s)) = tiles s"
    unfolding ts_def by (rule swapped_back[OF i])
  ultimately show ?thesis by simp
qed

theorem move_round_trip_witness:
  "valid (SlideBoard ''21 3'' 2 2 None 0 None)
   \<and> move Up (SlideBoard ''21 3'' 2 2 None 0 None)
       = Inr (Some (SlideBoard '' 123'' 2 0 None 1 (Some (SlideBoard ''21 3'' 2 2 None 0 None))))
   \<and> (\<exists>s''. move Down (SlideBoard '' 123'' 2 0 None 1 (Some (SlideBoard ''21 3'' 2 2 None 0 None)))
         = Inr (Some s'') \<and> tiles s'' = ''21 3'' \<and> depth s'' = 2)"
proof -
  let ?s = "SlideBoard ''21 3'' 2 2 None 0 None"
  let ?s' = "SlideBoard '' 123'' 2 0 None 1 (Some ?s)"
  have v: "valid ?s" by (simp add: valid_def blank_def)
  have m: "move Up ?s = Inr (Some ?s')"
    by (simp add: space_up_def space_move_def py_get_def bind_err_def init_def
        py_slice_def py_slice_to_def py_slice_from_def py_bound_def)
  show ?thesis
    using v m move_round_trip[OF v m] by simp
qed

section \<open>Claim about the heuristic\<close>

text \<open>
  Claim C6. For a valid state and a goal over the same symbols and of the same board size,
  \<open>generate_heuristic\<close> stores in the state the sum, over its non-blank symbols, of the
  row distance plus the column distance between the symbol's position in the state and
  its position in the goal; the value is not negative, and the blank adds nothing.
\<close>

theorem heuristic_is_manhattan:
  assumes "valid s" "set (tiles s) = set (tiles g)" "board_n s = board_n g"
  shows "generate_heuristic s g = Inr (set_heuristic s (Some (manhattan_sum s g)))
         \<and> 0 \<le> manhattan_sum s g"
proof -
  have n: "board_n s \<noteq> 0" and d: "distinct (tiles s)"
    using assms(1) by (simp_all add: valid_def)
  have sub: "set (tiles s) - {blank} \<subseteq> set (tiles g)" using assms(2) by auto
  have "manhattan_distance s g = Inr (manhattan_sum s g)"
    unfolding manhattan_distance_def manhattan_loop_sum[OF n sub]
    using sum_over_symbols[OF d, of blank
        "\<lambda>c i. \<bar>position (tiles g) c div board_n s - i div board_n s\<bar>
             + \<bar>position (tiles g) c mod board_n s - i mod board_n s\<bar>"]
    by (simp add: manhattan_sum_def row_of_def col_of_def assms(3)[symmetric] cong: if_cong)
  moreover have "0 \<le> manhattan_sum s g"
    unfolding manhattan_sum_def by (intro sum_nonneg) simp
  ultimately show ?thesis by (simp add: generate_heuristic_def bind_err_def)
qed

theorem heuristic_is_manhattan_witness:
  "valid (SlideBoard '' 123'' 2 0 None 1 None)
   \<and> set (tiles (SlideBoard '' 123'' 2 0 None 1 None)) = set (tiles (SlideBoard ''213 '' 2 3 None 0 None))
   \<and> generate_heuristic (SlideBoard '' 123'' 2 0 None 1 None) (SlideBoard ''213 '' 2 3 None 0 None)
       = Inr (SlideBoard '' 123'' 2 0 (Some 2) 1 None)
   \<and> manhattan_sum (SlideBoard '' 123'' 2 0 None 1 None) (SlideBoard ''213 '' 2 3 None 0 None) = 2"
proof -
  let ?s = "SlideBoard '' 123'' 2 0 None 1 None" and ?g = "SlideBoard ''213 '' 2 3 None 0 None"
  have v: "valid ?s" by (simp add: valid_def blank_def)
  have e: "set (tiles ?s) = set (tiles ?g)" by auto
  have n: "board_n ?s = board_n ?g" by simp
  have m: "manhattan_sum ?s ?g = 2"
    by (simp add: manhattan_sum_def row_of_def col_of_def position_def blank_def)
  show ?thesis
    using v e m heuristic_is_manhattan[OF v e n] by (simp add: set_heuristic_def)
qed

section \<open>Claims about the fringe\<close>

text \<open>
  Claim C1, as stated: for every sequence of \<open>add\<close> and \<open>remove\<close> calls, \<open>remove\<close> on a
  non-empty priority queue returns an entry of minimal f-value, the first inserted among
  equals.  It fails when a stored object is added again with another goal.  With
  \<open>f = heuristic\<close>: \<open>add(s, g1)\<close> stores \<open>s\<close> with heuristic 2, \<open>add(t, g1)\<close> stores
  \<open>t\<close> with heuristic 1, and \<open>add(s, g2)\<close> writes heuristic 0 into \<open>s\<close>, also where the
  list holds it, so that the list is out of order.  The first \<open>remove\<close> returns \<open>s\<close>; the
  second returns \<open>t\<close>, of f-value 1, while the queue still holds \<open>s\<close>, of f-value 0.
  Here \<open>s\<close> is at address 0, \<open>t\<close> at 1, \<open>g1\<close> at 2 and \<open>g2\<close> at 3.
\<close>

theorem priority_queue_readd_counterexample:
  "\<not> isl (run_refs f_GBFS_in PriorityQueue_new example_store
          [AddRef 0 2, AddRef 1 2, AddRef 0 3, RemoveRef, RemoveRef])
   \<and> map fst (projr (run_refs f_GBFS_in PriorityQueue_new example_store
          [AddRef 0 2, AddRef 1 2, AddRef 0 3, RemoveRef, RemoveRef]))
       = [None, None, None, Some 0, Some 1]
   \<and> rq_sorted_list (fst (snd (projr (run_refs f_GBFS_in PriorityQueue_new example_store
          [AddRef 0 2, AddRef 1 2, AddRef 0 3, RemoveRef, RemoveRef]) ! 3))) = [0, 1]
   \<and> f_GBFS_in (snd (snd (projr (run_refs f_GBFS_in PriorityQueue_new example_store
          [AddRef 0 2, AddRef 1 2, AddRef 0 3, RemoveRef, RemoveRef]) ! 3))) 0 = Inr 0
   \<and> f_GBFS_in (snd (snd (projr (run_refs f_GBFS_in PriorityQueue_new example_store
          [AddRef 0 2, AddRef 1 2, AddRef 0 3, RemoveRef, RemoveRef]) ! 3))) 1 = Inr 1
   \<and> spec_outputs f_GBFS_in example_store []
        [AddRef 0 2, AddRef 1 2, AddRef 0 3, RemoveRef, RemoveRef]
       = [None, None, None, Some 0, Some 0]"
  by code_simp

text \<open>
  Claim C1, amended: for a priority queue built with a scoring function \<open>f\<close> and every
  sequence of \<open>add\<close> and \<open>remove\<close> calls, running without an exception, in which no
  \<open>add\<close> changes the f-value of an entry that the queue holds at that time: every
  \<open>remove\<close> on a non-empty queue returns an entry of minimal f-value among the stored
  entries, the first inserted among those of equal f-value, and \<open>remove\<close> on an empty
  queue returns \<open>None\<close>.
\<close>

theorem priority_queue_order:
  assumes "run_refs f PriorityQueue_new st ops = Inr res"
    and "steady f PriorityQueue_new st ops"
  shows "map fst res = spec_outputs f st [] ops"
proof -
  have "queue_inv (f st) (rq_sorted_list PriorityQueue_new) []"
    by (simp add: queue_inv_def PriorityQueue_new_def stable_for_def)
  from run_refs_refines[OF this assms] show ?thesis .
qed

theorem priority_queue_order_witness:
  "steady f_GBFS_in PriorityQueue_new example_store
     [AddRef 0 2, AddRef 3 2, AddRef 1 2, AddRef 2 2,
      RemoveRef, RemoveRef, RemoveRef, RemoveRef, RemoveRef]
   \<and> (\<exists>res. run_refs f_GBFS_in PriorityQueue_new example_store
         [AddRef 0 2, AddRef 3 2, AddRef 1 2, AddRef 2 2,
          RemoveRef, RemoveRef, RemoveRef, RemoveRef, RemoveRef] = Inr res
        \<and> map fst res = [None, None, None, None, Some 2, Some 1, Some 0, Some 3, None])
   \<and> spec_outputs f_GBFS_in example_store []
        [AddRef 0 2, AddRef 3 2, AddRef 1 2, AddRef 2 2,
         RemoveRef, RemoveRef, RemoveRef, RemoveRef, RemoveRef]
       = [None, None, None, None, Some 2, Some 1, Some 0, Some 3, None]"
proof -
  let ?ops = "[AddRef 0 2, AddRef 3 2, AddRef 1 2, AddRef 2 2,
      RemoveRef, RemoveRef, RemoveRef, RemoveRef, RemoveRef]"
  have s: "steady f_GBFS_in PriorityQueue_new example_store ?ops" by code_simp
  have "\<not> isl (run_refs f_GBFS_in PriorityQueue_new example_store ?ops)" by code_simp
  then obtain res where r: "run_refs f_GBFS_in PriorityQueue_new example_store ?ops = Inr res"
    by (cases "run_refs f_GBFS_in PriorityQueue_new example_store ?ops") auto
  have o: "spec_outputs f_GBFS_in example_store [] ?ops
       = [None, None, None, None, Some 2, Some 1, Some 0, Some 3, None]"
    by code_simp
  from priority_queue_order[OF r s] r s o show ?thesis by simp
qed

text \<open>
  Claim C8. For a fringe of any of the three kinds, new and empty, and at every point \<open>k\<close>
  of a run of \<open>add\<close> and \<open>remove\<close> calls: \<open>num_created\<close> is the number of \<open>add\<close> calls
  made so far minus one, and \<open>max_fringe\<close> is the largest size the fringe has had so far.
  The search driver uses its fringe through these two calls only, and its first \<open>add\<close> is
  that of the start state.
\<close>

theorem fringe_statistics:
  assumes "run_ops (Fringe_init uses c) ops = Inr res" "len (Fringe_init uses c) = 0"
  shows "num_created (fringe_after (Fringe_init uses c) (take k res))
           = int (count_adds (take k ops)) - 1
         \<and> max_fringe (fringe_after (Fringe_init uses c) (take k res))
           = Max (set (sizes (Fringe_init uses c) (take k res)))"
proof -
  let ?fr = "Fringe_init uses c"
  have le: "int (len ?fr) \<le> max_fringe ?fr"
    using assms(2) by (simp add: Fringe_init_def)
  have z: "0 \<le> Max (set (sizes ?fr (take k res)))"
    using assms(2) by (simp add: sizes_def)
  from run_ops_counters[OF run_ops_take[OF assms(1), of k] le] z
  show ?thesis by (simp add: Fringe_init_def)
qed

theorem fringe_statistics_witness:
  "len (Fringe_init False (Queue [])) = 0
   \<and> (\<exists>res. run_ops (Fringe_init False (Queue []))
     [Add (SlideBoard '' 123'' 2 0 None 1 None) (SlideBoard ''213 '' 2 3 None 0 None),
      Add (SlideBoard '' 123'' 2 0 None 5 None) (SlideBoard ''213 '' 2 3 None 0 None),
      Add (SlideBoard ''213 '' 2 3 None 1 None) (SlideBoard ''213 '' 2 3 None 0 None),
      Remove, Remove, Remove, Remove] = Inr res
     \<and> sizes (Fringe_init False (Queue [])) res = [0, 1, 2, 3, 2, 1, 0, 0]
     \<and> num_created (fringe_after (Fringe_init False (Queue [])) (take 7 res)) = 2
     \<and> max_fringe (fringe_after (Fringe_init False (Queue [])) (take 7 res)) = 3)"
proof -
  let ?ops = "[Add (SlideBoard '' 123'' 2 0 None 1 None) (SlideBoard ''213 '' 2 3 None 0 None),
      Add (SlideBoard '' 123'' 2 0 None 5 None) (SlideBoard ''213 '' 2 3 None 0 None),
      Add (SlideBoard ''213 '' 2 3 None 1 None) (SlideBoard ''213 '' 2 3 None 0 None),
      Remove, Remove, Remove, Remove]"
  let ?fr = "Fringe_init False (Queue [])"
  have l: "len ?fr = 0" by (simp add: len_def Fringe_init_def)
  have "case run_ops ?fr ?ops of
     Inr res \<Rightarrow> length res = 7 \<and> sizes ?fr res = [0, 1, 2, 3, 2, 1, 0, 0]
   | Inl e \<Rightarrow> False"
    by code_simp
  then obtain res where r: "run_ops ?fr ?ops = Inr res" "length res = 7"
    "sizes ?fr res = [0, 1, 2, 3, 2, 1, 0, 0]"
    by (auto split: sum.splits)
  from fringe_statistics[OF r(1) l, of 7] r l show ?thesis by auto
qed

section \<open>Claims about the search\<close>

text \<open>
  Claim C4, as stated: for the start \<open>21 3\<close> and the goal \<open>213 \<close> on the 2 x 2 board, BFS
  returns depth 1 with the path \<open>21 3\<close>, \<open>213 \<close>; DFS, GBFS and A* return depth 1; and
  exactly one legal move exists from the start state.  The last part fails: the blank of
  the start state is in the lower left corner, and both the move up and the move right
  succeed.
\<close>

theorem one_legal_move_counterexample:
  "legal_moves (SlideBoard ''21 3'' 2 2 None 0 None) = [Up, Right]
   \<and> length (legal_moves (SlideBoard ''21 3'' 2 2 None 0 None)) \<noteq> 1"
  by code_simp

text \<open>
  Claim C4, amended: for the start \<open>21 3\<close> and the goal \<open>213 \<close> on the 2 x 2 board, BFS
  returns depth 1, and the parent chain of the state returned gives the path \<open>21 3\<close>,
  \<open>213 \<close>; DFS, GBFS and A* return depth 1; and exactly two legal moves exist from the
  start state, up and right: the move right gives a state equal to the goal, the move up
  gives \<open> 123\<close>, which is not.
\<close>

theorem example_search:
  "create ''21 3'' 2 = Inr (SlideBoard ''21 3'' 2 2 None 0 None)
   \<and> create ''213 '' 2 = Inr (SlideBoard ''213 '' 2 3 None 0 None)
   \<and> BFS (SlideBoard ''21 3'' 2 2 None 0 None) (SlideBoard ''213 '' 2 3 None 0 None)
       = Some (Inr (Some (SlideBoard ''213 '' 2 3 None 1
                            (Some (SlideBoard ''21 3'' 2 2 None 0 None))), 1, 3, 2, 2))
   \<and> solution_path (SlideBoard ''213 '' 2 3 None 1 (Some (SlideBoard ''21 3'' 2 2 None 0 None)))
       = [''21 3'', ''213 '']
   \<and> DFS (SlideBoard ''21 3'' 2 2 None 0 None) (SlideBoard ''213 '' 2 3 None 0 None)
       = Some (Inr (Some (SlideBoard ''213 '' 2 3 None 1
                            (Some (SlideBoard ''21 3'' 2 2 None 0 None))), 1, 2, 1, 2))
   \<and> GBFS (SlideBoard ''21 3'' 2 2 None 0 None) (SlideBoard ''213 '' 2 3 None 0 None)
       = Some (Inr (Some (SlideBoard ''213 '' 2 3 (Some 0) 1
                            (Some (SlideBoard ''21 3'' 2 2 (Some 1) 0 None))), 1, 2, 1, 2))
   \<and> AStar (SlideBoard ''21 3'' 2 2 None 0 None) (SlideBoard ''213 '' 2 3 None 0 None)
       = Some (Inr (Some (SlideBoard ''213 '' 2 3 (Some 0) 1
                            (Some (SlideBoard ''21 3'' 2 2 (Some 1) 0 None))), 1, 2, 1, 2))
   \<and> legal_moves (SlideBoard ''21 3'' 2 2 None 0 None) = [Up, Right]
   \<and> move Right (SlideBoard ''21 3'' 2 2 None 0 None)
       = Inr (Some (SlideBoard ''213 '' 2 3 None 1 (Some (SlideBoard ''21 3'' 2 2 None 0 None))))
   \<and> board_eq (SlideBoard ''213 '' 2 3 None 1 (Some (SlideBoard ''21 3'' 2 2 None 0 None)))
        (SlideBoard ''213 '' 2 3 None 0 None)
   \<and> move Up (SlideBoard ''21 3'' 2 2 None 0 None)
       = Inr (Some (SlideBoard '' 123'' 2 0 None 1 (Some (SlideBoard ''21 3'' 2 2 None 0 None))))
   \<and> \<not> board_eq (SlideBoard '' 123'' 2 0 None 1 (Some (SlideBoard ''21 3'' 2 2 None 0 None)))
        (SlideBoard ''213 '' 2 3 None 0 None)"
  by code_simp

text \<open>
  Claim C5, as stated: for every start and goal the driver never raises.  It fails for
  GBFS and A* on a start state with a symbol that the goal does not have: the heuristic
  looks the symbol up in the goal and \<open>index\<close> raises \<open>ValueError\<close>.
\<close>

theorem driver_raises_counterexample:
  "create ''ab c'' 2 = Inr (SlideBoard ''ab c'' 2 2 None 0 None)
   \<and> create ''213 '' 2 = Inr (SlideBoard ''213 '' 2 3 None 0 None)
   \<and> GBFS (SlideBoard ''ab c'' 2 2 None 0 None) (SlideBoard ''213 '' 2 3 None 0 None)
       = Some (Inl ValueError)
   \<and> AStar (SlideBoard ''ab c'' 2 2 None 0 None) (SlideBoard ''213 '' 2 3 None 0 None)
       = Some (Inl ValueError)"
  by code_simp

text \<open>
  Claim C5, amended: for every valid start state and every goal, BFS and DFS never raise
  and never run forever, and the same holds for GBFS and A* when every non-blank symbol of
  the start state occurs in the goal.  The driver returns either a state equal to the goal
  with its depth or, when the fringe empties without the goal being found, the absent
  state with depth -1 and the three statistics zero.
\<close>

theorem driver_returns:
  assumes "valid start"
  shows "(\<exists>r. BFS start goal = Some (Inr r) \<and> search_ok goal r) \<and>
         (\<exists>r. DFS start goal = Some (Inr r) \<and> search_ok goal r) \<and>
         (set (tiles start) - {blank} \<subseteq> set (tiles goal) \<longrightarrow>
            (\<exists>r. GBFS start goal = Some (Inr r) \<and> search_ok goal r) \<and>
            (\<exists>r. AStar start goal = Some (Inr r) \<and> search_ok goal r))"
  using graph_search_returns[OF assms fringe_inv_init(1)]
    graph_search_returns[OF assms fringe_inv_init(2)]
    graph_search_returns[OF assms fringe_inv_init(3)]
    graph_search_returns[OF assms fringe_inv_init(4)]
  by (simp add: BFS_def DFS_def GBFS_def AStar_def)

theorem driver_returns_witness:
  "valid (SlideBoard ''12 3'' 2 2 None 0 None)
   \<and> set (tiles (SlideBoard ''12 3'' 2 2 None 0 None)) - {blank}
       \<subseteq> set (tiles (SlideBoard ''213 '' 2 3 None 0 None))
   \<and> BFS (SlideBoard ''12 3'' 2 2 None 0 None) (SlideBoard ''213 '' 2 3 None 0 None)
       = Some (Inr (None, - 1, 0, 0, 0))
   \<and> (\<exists>r. GBFS (SlideBoard ''12 3'' 2 2 None 0 None) (SlideBoard ''213 '' 2 3 None 0 None)
         = Some (Inr r) \<and> search_ok (SlideBoard ''213 '' 2 3 None 0 None) r)"
proof -
  let ?s = "SlideBoard ''12 3'' 2 2 None 0 None" and ?g = "SlideBoard ''213 '' 2 3 None 0 None"
  have v: "valid ?s" by (simp add: valid_def blank_def)
  have sub: "set (tiles ?s) - {blank} \<subseteq> set (tiles ?g)" by auto
  have b: "BFS ?s ?g = Some (Inr (None, - 1, 0, 0, 0))" by code_simp
  from driver_returns[OF v, of ?g] v sub b show ?thesis by blast
qed

text \<open>
  Claim C9. For a 2 x 2 start state, built by \<open>create\<close>, whose tiles are the goal's, each
  of the four algorithms returns that state with depth 0 (GBFS and A* with its heuristic
  cached, which is 0), and the parent chain of the state returned is the single
  configuration of the goal.
\<close>

theorem start_equals_goal:
  assumes "create ts 2 = Inr start" "create ts' 2 = Inr goal" "tiles start = tiles goal"
  shows "BFS start goal = Some (Inr (Some start, 0, 0, 0, 1))
       \<and> DFS start goal = Some (Inr (Some start, 0, 0, 0, 1))
       \<and> GBFS start goal = Some (Inr (Some (set_heuristic start (Some 0)), 0, 0, 0, 1))
       \<and> AStar start goal = Some (Inr (Some (set_heuristic start (Some 0)), 0, 0, 0, 1))
       \<and> solution_path start = [tiles goal]
       \<and> solution_path (set_heuristic start (Some 0)) = [tiles goal]"
proof -
  from create_valid[OF assms(1)] have v: "valid start" and d: "depth start = 0"
    and p: "parent start = None" by simp_all
  have "solution_path start = [tiles goal]"
    using p assms(3) by (cases start) simp
  moreover have "solution_path (set_heuristic start (Some 0)) = [tiles goal]"
    using p assms(3) by (cases start) (simp add: set_heuristic_def)
  ultimately show ?thesis
    using search_at_goal[OF v assms(3)] d by simp
qed

theorem start_equals_goal_witness:
  "create ''213 '' 2 = Inr (SlideBoard ''213 '' 2 3 None 0 None)
   \<and> BFS (SlideBoard ''213 '' 2 3 None 0 None) (SlideBoard ''213 '' 2 3 None 0 None)
       = Some (Inr (Some (SlideBoard ''213 '' 2 3 None 0 None), 0, 0, 0, 1))
   \<and> DFS (SlideBoard ''213 '' 2 3 None 0 None) (SlideBoard ''213 '' 2 3 None 0 None)
       = Some (Inr (Some (SlideBoard ''213 '' 2 3 None 0 None), 0, 0, 0, 1))
   \<and> GBFS (SlideBoard ''213 '' 2 3 None 0 None) (SlideBoard ''213 '' 2 3 None 0 None)
       = Some (Inr (Some (SlideBoard ''213 '' 2 3 (Some 0) 0 None), 0, 0, 0, 1))
   \<and> AStar (SlideBoard ''213 '' 2 3 None 0 None) (SlideBoard ''213 '' 2 3 None 0 None)
       = Some (Inr (Some (SlideBoard ''213 '' 2 3 (Some 0) 0 None), 0, 0, 0, 1))
   \<and> solution_path (SlideBoard ''213 '' 2 3 None 0 None) = [''213 '']"
proof -
  let ?g = "SlideBoard ''213 '' 2 3 None 0 None"
  have c: "create ''213 '' 2 = Inr ?g" by code_simp
  from start_equals_goal[OF c c refl] c show ?thesis
    by (simp add: set_heuristic_def)
qed

end
